theory Spec2Isabelle
  imports Main "HOL-Library.Sublist"
begin

section \<open>Strings, character classes and the regular-expression primitives\<close>

text \<open>
  A JavaScript string is a sequence of UTF-16 code units. A code unit is modelled by its
  number, an integer (from 0 to 0xFFFF in a string of the program; no definition below
  depends on that bound, and the only arithmetic on code units, in \<open>lowerASCII\<close> and
  \<open>decimal\<close>, stays far below it). \<open>str\<close> gives the code units of a text that the
  source writes with characters below 0x100; single code units are written by their
  number, as in the source's \<open>\uXXXX\<close> escapes.
\<close>

type_synonym codeUnit = int

type_synonym jstring = "codeUnit list"

definition str :: "string \<Rightarrow> jstring" where
  "str s = map of_char s"

text \<open>
  The line terminators (what \<open>.\<close> refuses without the \<open>s\<close> flag and where \<open>^\<close> and \<open>$\<close>
  hold with the \<open>m\<close> flag) are LF, CR, U+2028 and U+2029. The white space of \<open>\s\<close> is
  TAB, LF, VT, FF, CR, SPACE, NBSP, U+1680, U+2000 to U+200A, U+2028, U+2029, U+202F,
  U+205F, U+3000 and U+FEFF.
\<close>

definition isLineTerminator :: "codeUnit \<Rightarrow> bool" where
  "isLineTerminator c = (c = 0x0A \<or> c = 0x0D \<or> c = 0x2028 \<or> c = 0x2029)"

definition isWhiteSpace :: "codeUnit \<Rightarrow> bool" where
  "isWhiteSpace c = (c = 0x09 \<or> c = 0x0A \<or> c = 0x0B \<or> c = 0x0C \<or> c = 0x0D \<or> c = 0x20
     \<or> c = 0xA0 \<or> c = 0x1680 \<or> (0x2000 \<le> c \<and> c \<le> 0x200A) \<or> c = 0x2028 \<or> c = 0x2029
     \<or> c = 0x202F \<or> c = 0x205F \<or> c = 0x3000 \<or> c = 0xFEFF)"

definition anyChar :: "codeUnit \<Rightarrow> bool" where
  "anyChar c = True"

definition notLT :: "codeUnit \<Rightarrow> bool" where
  "notLT c = (\<not> isLineTerminator c)"

definition notChar :: "codeUnit \<Rightarrow> codeUnit \<Rightarrow> bool" where
  "notChar d c = (c \<noteq> d)"

fun startsWith :: "jstring \<Rightarrow> jstring \<Rightarrow> bool" where
  "startsWith s [] = True"
| "startsWith [] (p # ps) = False"
| "startsWith (c # cs) (p # ps) = (c = p \<and> startsWith cs ps)"

text \<open>
  \<open>lazyUntil ok cl s\<close> matches the regular expression \<open>X*?cl\<close> at the start of \<open>s\<close>, where
  \<open>X\<close> is the character class \<open>ok\<close> and \<open>cl\<close> a literal text: the lazy star tries the
  closer first and consumes one more character of the class only when the closer is not
  there. The result is the matched text.
\<close>

fun lazyUntil :: "(codeUnit \<Rightarrow> bool) \<Rightarrow> jstring \<Rightarrow> jstring \<Rightarrow> jstring option" where
  "lazyUntil ok cl [] = (if cl = [] then Some [] else None)"
| "lazyUntil ok cl (c # cs) =
     (if startsWith (c # cs) cl then Some cl
      else if ok c then map_option ((#) c) (lazyUntil ok cl cs)
      else None)"

text \<open>\<open>spanAt op ok cl s\<close> matches \<open>op X*? cl\<close> at the start of \<open>s\<close>.\<close>

definition spanAt :: "jstring \<Rightarrow> (codeUnit \<Rightarrow> bool) \<Rightarrow> jstring \<Rightarrow> jstring \<Rightarrow> jstring option" where
  "spanAt op ok cl s =
     (if startsWith s op then map_option ((@) op) (lazyUntil ok cl (drop (length op) s))
      else None)"

text \<open>
  A rule gives, for the text at the current position, the text matched there and its
  replacement. \<open>gmatch\<close> is \<open>String.prototype.match\<close> with a global regular expression
  (the matches from left to right, each search resuming after the previous match) and
  \<open>greplace\<close> is \<open>String.prototype.replace\<close> with one. None of the expressions below
  matches the empty text or looks behind the current position; after a match of
  length \<open>n\<close> the scan resumes \<open>n\<close> characters further.
\<close>

type_synonym rule = "jstring \<Rightarrow> (jstring \<times> jstring) option"

fun gmatch :: "rule \<Rightarrow> jstring \<Rightarrow> jstring list" where
  "gmatch m [] = []"
| "gmatch m (c # cs) =
     (case m (c # cs) of
        Some (x, r) \<Rightarrow> x # gmatch m (drop (length x - 1) cs)
      | None \<Rightarrow> gmatch m cs)"

fun greplace :: "rule \<Rightarrow> jstring \<Rightarrow> jstring" where
  "greplace m [] = []"
| "greplace m (c # cs) =
     (case m (c # cs) of
        Some (x, r) \<Rightarrow> r @ greplace m (drop (length x - 1) cs)
      | None \<Rightarrow> c # greplace m cs)"

definition deleting :: "(jstring \<Rightarrow> jstring option) \<Rightarrow> rule" where
  "deleting f s = map_option (\<lambda>x. (x, [])) (f s)"


definition keeping :: "(jstring \<Rightarrow> jstring option) \<Rightarrow> rule" where
  "keeping f s = map_option (\<lambda>x. (x, x)) (f s)"

text \<open>
  \<open>String.prototype.match\<close> with a global expression gives \<open>null\<close> (here \<open>None\<close>) when
  nothing matches and the array of the matches otherwise.
\<close>

definition jsMatch :: "(jstring \<Rightarrow> jstring option) \<Rightarrow> jstring \<Rightarrow> jstring list option" where
  "jsMatch f s = (case gmatch (keeping f) s of [] \<Rightarrow> None | x # xs \<Rightarrow> Some (x # xs))"

subsection \<open>Replacement templates\<close>

definition isDigit :: "codeUnit \<Rightarrow> bool" where
  "isDigit c = (0x30 \<le> c \<and> c \<le> 0x39)"

definition digitVal :: "codeUnit \<Rightarrow> nat" where
  "digitVal c = nat (c - 48)"

text \<open>
  \<open>getSubstitution mt bf af caps t\<close> expands the replacement template \<open>t\<close> of
  \<open>String.prototype.replace\<close> (the abstract operation GetSubstitution of ECMAScript):
  \<open>$$\<close> is a dollar sign, \<open>$&\<close> the matched text \<open>mt\<close>, \<open>$`\<close> the text \<open>bf\<close> before the
  match, \<open>$'\<close> the text \<open>af\<close> after it, \<open>$n\<close> and \<open>$nn\<close> the capture of that number
  when there is one; any other dollar sign stands for itself. \<open>dollarStep\<close> reads what
  follows one dollar sign and gives the text it stands for and the rest of the template.
\<close>

definition dollarStep ::
  "jstring \<Rightarrow> jstring \<Rightarrow> jstring \<Rightarrow> jstring list \<Rightarrow> codeUnit \<Rightarrow> jstring \<Rightarrow> jstring \<times> jstring" where
  "dollarStep mt bf af caps d t =
     (if d = 0x24 then (str ''$'', t)
      else if d = 0x26 then (mt, t)
      else if d = 0x60 then (bf, t)
      else if d = 0x27 then (af, t)
      else if isDigit d then
        (case t of
           e # t' \<Rightarrow>
             if isDigit e \<and> 10 * digitVal d + digitVal e \<le> length caps then
               (if 1 \<le> 10 * digitVal d + digitVal e
                then (caps ! (10 * digitVal d + digitVal e - 1), t')
                else (str ''$'', d # t))
             else if 1 \<le> digitVal d \<and> digitVal d \<le> length caps
               then (caps ! (digitVal d - 1), t)
             else (str ''$'', d # t)
         | [] \<Rightarrow>
             if 1 \<le> digitVal d \<and> digitVal d \<le> length caps
               then (caps ! (digitVal d - 1), [])
             else (str ''$'', [d]))
      else (str ''$'', d # t))"

function getSubstitution :: "jstring \<Rightarrow> jstring \<Rightarrow> jstring \<Rightarrow> jstring list \<Rightarrow> jstring \<Rightarrow> jstring" where
  "getSubstitution mt bf af caps [] = []"
| "getSubstitution mt bf af caps [c] = [c]"
| "getSubstitution mt bf af caps (c # d # t) =
     (if c = 0x24
      then fst (dollarStep mt bf af caps d t) @
           getSubstitution mt bf af caps (snd (dollarStep mt bf af caps d t))
      else c # getSubstitution mt bf af caps (d # t))"
  by pat_completeness auto
termination
  by (relation "measure (\<lambda>(mt, bf, af, caps, t). length t)")
     (auto simp: less_Suc_eq_le dollarStep_def split: list.split)

text \<open>
  \<open>String.prototype.replace\<close> with a string pattern: the first occurrence of \<open>pat\<close> is
  replaced by the expansion of the template \<open>tmpl\<close> (a string pattern has no captures);
  \<open>bf\<close> is the text already passed.
\<close>

fun replaceFirstFrom :: "jstring \<Rightarrow> jstring \<Rightarrow> jstring \<Rightarrow> jstring \<Rightarrow> jstring" where
  "replaceFirstFrom bf pat tmpl [] =
     (if pat = [] then getSubstitution pat bf [] [] tmpl else [])"
| "replaceFirstFrom bf pat tmpl (c # cs) =
     (if startsWith (c # cs) pat
      then getSubstitution pat bf (drop (length pat) (c # cs)) [] tmpl @ drop (length pat) (c # cs)
      else c # replaceFirstFrom (bf @ [c]) pat tmpl cs)"

definition replaceFirst :: "jstring \<Rightarrow> jstring \<Rightarrow> jstring \<Rightarrow> jstring" where
  "replaceFirst pat tmpl s = replaceFirstFrom [] pat tmpl s"

section \<open>The stages of minifyJsCode\<close>

subsection \<open>Comments\<close>

text \<open>\<open>arg.replace(/<!--.*?-->/gm, '')\<close>\<close>

definition removeHTMLComment :: "jstring \<Rightarrow> jstring" where
  "removeHTMLComment arg = greplace (deleting (spanAt (str ''<!--'') notLT (str ''-->''))) arg"

text \<open>
  \<open>arg.replace(/(?<!:)(\/\/).*$/gm, '')\<close>: the look-behind reads the character before
  the current position in the text being scanned, which the scan carries as \<open>prev\<close>; the
  greedy \<open>.*\<close> runs to the next line terminator or to the end, where \<open>$\<close> holds.
\<close>

function removeSLFrom :: "codeUnit option \<Rightarrow> jstring \<Rightarrow> jstring" where
  "removeSLFrom prev [] = []"
| "removeSLFrom prev (c # cs) =
     (if startsWith (c # cs) (str ''//'') \<and> prev \<noteq> Some 0x3A
      then removeSLFrom (Some (last (c # takeWhile notLT cs))) (dropWhile notLT cs)
      else c # removeSLFrom (Some c) cs)"
  by pat_completeness auto
termination
  by (relation "measure (\<lambda>(p, s). length s)")
     (auto simp: less_Suc_eq_le length_dropWhile_le)

definition removeSLComment :: "jstring \<Rightarrow> jstring" where
  "removeSLComment arg = removeSLFrom None arg"

text \<open>\<open>arg.replace(/(\t|\r\n|\n)/g, ' ')\<close>\<close>

fun tabCrlfToSpace :: "jstring \<Rightarrow> jstring" where
  "tabCrlfToSpace [] = []"
| "tabCrlfToSpace [c] = [if c = 0x09 \<or> c = 0x0A then 0x20 else c]"
| "tabCrlfToSpace (c # d # cs) =
     (if c = 0x0D \<and> d = 0x0A then 0x20 # tabCrlfToSpace cs
      else (if c = 0x09 \<or> c = 0x0A then 0x20 else c) # tabCrlfToSpace (d # cs))"

text \<open>\<open>arg.replace(/\/\*.*?\*\//gm, '')\<close>\<close>

definition removeMLComment :: "jstring \<Rightarrow> jstring" where
  "removeMLComment arg = greplace (deleting (spanAt (str ''/*'') notLT (str ''*/''))) arg"

subsection \<open>Literals and their placeholders\<close>

text \<open>The template literal \<open>/`[^`]*?`/gm\<close> and the quoted literal \<open>/("[^"]*?"|'[^']*?')/g\<close>.\<close>

definition templateAt :: "jstring \<Rightarrow> jstring option" where
  "templateAt s = spanAt [0x60] (notChar 0x60) [0x60] s"

definition quotedAt :: "jstring \<Rightarrow> jstring option" where
  "quotedAt s =
     (case spanAt [0x22] (notChar 0x22) [0x22] s of
        Some x \<Rightarrow> Some x
      | None \<Rightarrow> spanAt [0x27] (notChar 0x27) [0x27] s)"

text \<open>
  \<open>(arg.match(T) || []).concat(arg.replace(T, "").match(Q))\<close>: an element of the result
  is a text or \<open>null\<close> (\<open>None\<close>), because \<open>concat\<close> appends a \<open>null\<close> argument as one
  element.
\<close>

definition escapeLiterals :: "jstring \<Rightarrow> jstring option list" where
  "escapeLiterals arg =
     (case jsMatch templateAt arg of None \<Rightarrow> [] | Some ts \<Rightarrow> map Some ts) @
     (case jsMatch quotedAt (greplace (deleting templateAt) arg) of
        None \<Rightarrow> [None]
      | Some qs \<Rightarrow> map Some qs)"

text \<open>\<open>String(i)\<close> and \<open>padStart(5, '0')\<close>.\<close>

fun decimal :: "nat \<Rightarrow> jstring" where
  "decimal n = (if n < 10 then [int (48 + n)]
                else decimal (n div 10) @ [int (48 + n mod 10)])"

definition padStart :: "nat \<Rightarrow> codeUnit \<Rightarrow> jstring \<Rightarrow> jstring" where
  "padStart n c s = replicate (n - length s) c @ s"

definition placeholder :: "nat \<Rightarrow> jstring" where
  "placeholder i = (str ''escapeString_____'') @ padStart 5 0x30 (decimal i)"

text \<open>A \<open>null\<close> pattern is converted to the text \<open>null\<close> by \<open>replace\<close>.\<close>

definition patternText :: "jstring option \<Rightarrow> jstring" where
  "patternText l = (case l of None \<Rightarrow> (str ''null'') | Some x \<Rightarrow> x)"

fun setLiteralsFrom :: "nat \<Rightarrow> jstring \<Rightarrow> jstring option list \<Rightarrow> jstring" where
  "setLiteralsFrom i escapedText [] = escapedText"
| "setLiteralsFrom i escapedText (l # ls) =
     setLiteralsFrom (Suc i) (replaceFirst (patternText l) (placeholder i) escapedText) ls"

definition setLiteralsToValiable :: "jstring \<Rightarrow> jstring option list \<Rightarrow> jstring" where
  "setLiteralsToValiable inputText literals = setLiteralsFrom 0 inputText literals"

text \<open>\<open>(literals[i] || "").replace(/\$/g, '$$$$')\<close>: every dollar sign is doubled.\<close>

definition escapeDollar :: "jstring \<Rightarrow> jstring" where
  "escapeDollar s = greplace (\<lambda>t. if startsWith t (str ''$'')
       then Some (str ''$'', getSubstitution (str ''$'') [] [] [] (str ''$$$$'')) else None) s"

definition literalText :: "jstring option \<Rightarrow> jstring" where
  "literalText l = (case l of None \<Rightarrow> [] | Some x \<Rightarrow> x)"

fun getLiteralsFrom :: "nat \<Rightarrow> jstring \<Rightarrow> jstring option list \<Rightarrow> jstring" where
  "getLiteralsFrom i restoredText [] = restoredText"
| "getLiteralsFrom i restoredText (l # ls) =
     getLiteralsFrom (Suc i)
       (replaceFirst (placeholder i) (escapeDollar (literalText l)) restoredText) ls"

definition getLiteralsFromValiable :: "jstring \<Rightarrow> jstring option list \<Rightarrow> jstring" where
  "getLiteralsFromValiable inputText literals = getLiteralsFrom 0 inputText literals"

subsection \<open>Quotation marks inside regular-expression literals\<close>

text \<open>
  \<open>arg.replace(/(\/[^\/]*?)Q([^\/]*?\/)/g, "$1M$2")\<close> for a quotation mark \<open>Q\<close> and a
  control character \<open>M\<close>: from a slash, the first \<open>Q\<close> before the next slash.
\<close>

definition escapeInRegexRule :: "codeUnit \<Rightarrow> codeUnit \<Rightarrow> rule" where
  "escapeInRegexRule q mk s =
     (case spanAt (str ''/'') (notChar 0x2F) [q] s of
        None \<Rightarrow> None
      | Some p1q \<Rightarrow>
          (case lazyUntil (notChar 0x2F) (str ''/'') (drop (length p1q) s) of
             None \<Rightarrow> None
           | Some p2 \<Rightarrow>
               Some (p1q @ p2,
                     getSubstitution (p1q @ p2) [] [] [butlast p1q, p2] ((str ''$1'') @ [mk] @ (str ''$2'')))))"

definition escapeQuotInRegexPattern :: "jstring \<Rightarrow> jstring" where
  "escapeQuotInRegexPattern arg = greplace (escapeInRegexRule 0x22 0x0E) arg"

definition escapeAposInRegexPattern :: "jstring \<Rightarrow> jstring" where
  "escapeAposInRegexPattern arg = greplace (escapeInRegexRule 0x27 0x0F) arg"

definition escapeBacktickInRegexPattern :: "jstring \<Rightarrow> jstring" where
  "escapeBacktickInRegexPattern arg = greplace (escapeInRegexRule 0x60 0x10) arg"

definition replaceChar :: "codeUnit \<Rightarrow> codeUnit \<Rightarrow> jstring \<Rightarrow> jstring" where
  "replaceChar a b s = map (\<lambda>c. if c = a then b else c) s"

definition restoreBacktickInRegexPattern :: "jstring \<Rightarrow> jstring" where
  "restoreBacktickInRegexPattern arg = replaceChar 0x10 0x60 arg"

definition restoreAposInRegexPattern :: "jstring \<Rightarrow> jstring" where
  "restoreAposInRegexPattern arg = replaceChar 0x0F 0x27 arg"

definition restoreQuotInRegexPattern :: "jstring \<Rightarrow> jstring" where
  "restoreQuotInRegexPattern arg = replaceChar 0x0E 0x22 arg"

subsection \<open>White space\<close>

text \<open>
  The alternatives of \<open>symbols\<close>, in the order of the source. The source writes the
  tenth and eleventh without a backslash, so they are the five-letter texts \<open>u003C\<close>
  and \<open>u003E\<close>.
\<close>

definition symbols :: "jstring list" where
  "symbols = [str ''('', str '')'', str ''{'', str ''}'', str ''['', str '']'', str ''+'', str ''-'', str ''='',
              str ''u003C'', str ''u003E'', str '':'', str '';'', str '','']"

definition symbolAt :: "jstring \<Rightarrow> jstring option" where
  "symbolAt s = find (startsWith s) symbols"

text \<open>
  \<open>(symbols)\s+|\s+(symbols)|\s+\<close> with the replacer \<open>(match, p1, p2) => p1 || p2 || ' '\<close>:
  the alternatives are tried in this order at each position.
\<close>

definition removeSpaceRule :: rule where
  "removeSpaceRule s =
     (case (case symbolAt s of
              None \<Rightarrow> None
            | Some p1 \<Rightarrow>
                (if takeWhile isWhiteSpace (drop (length p1) s) = [] then None
                 else Some (p1 @ takeWhile isWhiteSpace (drop (length p1) s), p1))) of
        Some r \<Rightarrow> Some r
      | None \<Rightarrow>
          (if takeWhile isWhiteSpace s = [] then None
           else (case symbolAt (dropWhile isWhiteSpace s) of
                   Some p2 \<Rightarrow> Some (takeWhile isWhiteSpace s @ p2, p2)
                 | None \<Rightarrow> Some (takeWhile isWhiteSpace s, str '' ''))))"

definition removeSpace :: "jstring \<Rightarrow> jstring" where
  "removeSpace arg = greplace removeSpaceRule arg"

subsection \<open>Preserved comments\<close>

text \<open>\<open>arg.match(/\/\*![\s\S]*?\*\//gm)\<close>\<close>

definition preserveComment :: "jstring \<Rightarrow> jstring list option" where
  "preserveComment arg = jsMatch (spanAt (str ''/*!'') anyChar (str ''*/'')) arg"

fun joinWith :: "jstring \<Rightarrow> jstring list \<Rightarrow> jstring" where
  "joinWith sep [] = []"
| "joinWith sep [x] = x"
| "joinWith sep (x # y # ys) = x @ sep @ joinWith sep (y # ys)"

definition concatComments :: "jstring \<Rightarrow> jstring list option \<Rightarrow> jstring" where
  "concatComments text comments =
     (case comments of
        Some cs \<Rightarrow> joinWith [0x0A] cs @ [0x0A] @ text
      | None \<Rightarrow> text)"

text \<open>
  \<open>^\s*<\s*script\s*>\<close> at the start of the text (the expressions that use it have no \<open>m\<close>
  flag, so \<open>^\<close> is the start of the text only): the matched text and what follows it.
\<close>

definition scriptOpenAt :: "jstring \<Rightarrow> (jstring \<times> jstring) option" where
  "scriptOpenAt s =
     (let s1 = dropWhile isWhiteSpace s in
      if \<not> startsWith s1 (str ''<'') then None
      else let s2 = dropWhile isWhiteSpace (drop 1 s1) in
      if \<not> startsWith s2 (str ''script'') then None
      else let s3 = dropWhile isWhiteSpace (drop 6 s2) in
      if \<not> startsWith s3 (str ''>'') then None
      else Some (take (length s - length s3 + 1) s, drop 1 s3))"

text \<open>
  \<open>text.replace(/(^\s*<\s*script\s*>)/g, "$1\n" + comments.join("\n") + "\n")\<close>: the
  comments are part of the replacement template.
\<close>

definition spliceComennts :: "jstring \<Rightarrow> jstring list option \<Rightarrow> jstring" where
  "spliceComennts text comments =
     (case comments of
        Some cs \<Rightarrow>
          (case scriptOpenAt text of
             Some (m, r) \<Rightarrow>
               getSubstitution m [] r [m]
                 ((str ''$1'') @ [0x0A] @ joinWith [0x0A] cs @ [0x0A]) @ r
           | None \<Rightarrow> text)
      | None \<Rightarrow> text)"

text \<open>\<open>modifiedJsCode.replace(/(^\s*<\s*script\s*>\s+)/, "<script>")\<close>\<close>

definition trimScriptOpen :: "jstring \<Rightarrow> jstring" where
  "trimScriptOpen text =
     (case scriptOpenAt text of
        Some (m, r) \<Rightarrow>
          (if takeWhile isWhiteSpace r = [] then text
           else (str ''<script>'') @ dropWhile isWhiteSpace r)
      | None \<Rightarrow> text)"

section \<open>minifyJsCode\<close>

definition stripComments :: "jstring \<Rightarrow> jstring" where
  "stripComments inputJsCode =
     removeMLComment (tabCrlfToSpace (removeSLComment (removeHTMLComment inputJsCode)))"

definition escapeRegexQuotes :: "jstring \<Rightarrow> jstring" where
  "escapeRegexQuotes t =
     escapeBacktickInRegexPattern (escapeAposInRegexPattern (escapeQuotInRegexPattern t))"

definition restoreRegexQuotes :: "jstring \<Rightarrow> jstring" where
  "restoreRegexQuotes t =
     restoreQuotInRegexPattern (restoreAposInRegexPattern (restoreBacktickInRegexPattern t))"

definition minifyJsCode :: "jstring \<Rightarrow> bool \<Rightarrow> jstring" where
  "minifyJsCode inputJsCode isEmbed =
     (let modifiedJsCode = stripComments inputJsCode;
          escapedLiterals = escapeLiterals modifiedJsCode;
          modifiedJsCode = setLiteralsToValiable modifiedJsCode escapedLiterals;
          modifiedJsCode = escapeRegexQuotes modifiedJsCode;
          modifiedJsCode = removeSpace modifiedJsCode;
          modifiedJsCode = getLiteralsFromValiable modifiedJsCode escapedLiterals;
          modifiedJsCode = restoreRegexQuotes modifiedJsCode;
          preservedComments = preserveComment inputJsCode;
          modifiedJsCode = trimScriptOpen modifiedJsCode
      in if isEmbed then spliceComennts modifiedJsCode preservedComments
         else concatComments modifiedJsCode preservedComments)"
section \<open>Vocabulary of the properties\<close>

text \<open>The three control characters that stand for quotation marks inside regular expressions.\<close>

definition markers :: "codeUnit set" where
  "markers = {0x0E, 0x0F, 0x10}"

text \<open>
  \<open>weave gaps xs\<close> is the text that holds the texts \<open>xs\<close> in this order with the gaps
  between them (one gap before each and one after the last). \<open>delimitedBy q t\<close> says
  that \<open>t\<close> starts and ends with \<open>q\<close> and has no \<open>q\<close> in between.
\<close>

fun weave :: "jstring list \<Rightarrow> jstring list \<Rightarrow> jstring" where
  "weave [] xs = concat xs"
| "weave (g # gs) [] = g @ concat gs"
| "weave (g # gs) (x # xs) = g @ x @ weave gs xs"

definition delimitedBy :: "codeUnit \<Rightarrow> jstring \<Rightarrow> bool" where
  "delimitedBy q t = (2 \<le> length t \<and> hd t = q \<and> last t = q \<and> q \<notin> set (butlast (tl t)))"

text \<open>
  A reading of a text as gaps and literals. In a gap a delimiter may stand only when no
  delimiter of its kind comes anywhere after it, in the gap or in the rest of the text
  (\<open>openIn D g rest\<close> for the delimiters \<open>D\<close>, the gap \<open>g\<close> and the rest after it): it
  then opens nothing. \<open>literalReading arg gaps ts gaps' qs\<close> reads \<open>arg\<close> as the gaps
  \<open>gaps\<close> and the template literals \<open>ts\<close>, and the gaps joined together as the gaps
  \<open>gaps'\<close> and the quoted literals \<open>qs\<close>.
\<close>

fun openIn :: "codeUnit set \<Rightarrow> jstring \<Rightarrow> jstring \<Rightarrow> bool" where
  "openIn D [] rest = True"
| "openIn D (c # cs) rest = ((c \<in> D \<longrightarrow> c \<notin> set cs \<and> c \<notin> set rest) \<and> openIn D cs rest)"

fun gapsOpen :: "codeUnit set \<Rightarrow> jstring list \<Rightarrow> jstring list \<Rightarrow> bool" where
  "gapsOpen D [] xs = True"
| "gapsOpen D (g # gs) [] = openIn D g (concat gs)"
| "gapsOpen D (g # gs) (x # xs) = (openIn D g (x @ weave gs xs) \<and> gapsOpen D gs xs)"

definition literalReading ::
  "jstring \<Rightarrow> jstring list \<Rightarrow> jstring list \<Rightarrow> jstring list \<Rightarrow> jstring list \<Rightarrow> bool" where
  "literalReading arg gaps ts gaps' qs \<longleftrightarrow>
     length gaps = Suc (length ts) \<and> arg = weave gaps ts \<and>
     (\<forall>t \<in> set ts. delimitedBy 0x60 t) \<and> gapsOpen {0x60} gaps ts \<and>
     length gaps' = Suc (length qs) \<and> concat gaps = weave gaps' qs \<and>
     (\<forall>q \<in> set qs. delimitedBy 0x22 q \<or> delimitedBy 0x27 q) \<and> gapsOpen {0x22, 0x27} gaps' qs"

text \<open>The text minifyJsCode has built before it attaches the preserved comments.\<close>

definition minifiedCode :: "jstring \<Rightarrow> jstring" where
  "minifiedCode inputJsCode =
     (let modifiedJsCode = stripComments inputJsCode;
          escapedLiterals = escapeLiterals modifiedJsCode
      in trimScriptOpen (restoreRegexQuotes (getLiteralsFromValiable
           (removeSpace (escapeRegexQuotes (setLiteralsToValiable modifiedJsCode escapedLiterals)))
           escapedLiterals)))"

text \<open>The number of places of a text at which a given text occurs.\<close>

fun countOccurrences :: "jstring \<Rightarrow> jstring \<Rightarrow> nat" where
  "countOccurrences p [] = (if p = [] then 1 else 0)"
| "countOccurrences p (c # cs) = (if startsWith (c # cs) p then 1 else 0) + countOccurrences p cs"

section \<open>minifyJsInHtml\<close>

subsection \<open>Script tags\<close>

text \<open>The sentinel \<open>"\\u003C" + "\/script " + " \\u003E"\<close>: a backslash is part of it.\<close>

definition ESCAPED_SCRIPT_TAG :: jstring where
  "ESCAPED_SCRIPT_TAG = [0x5C] @ (str ''u003C/script  '') @ [0x5C] @ (str ''u003E'')"

text \<open>
  Letters compared under the \<open>i\<close> flag. The expressions have no \<open>u\<close> flag and their
  letters are ASCII: such a letter matches itself in both cases and nothing else, because
  a code unit of 128 or more is never brought to an ASCII one by the case folding.
\<close>

definition lowerASCII :: "codeUnit \<Rightarrow> codeUnit" where
  "lowerASCII c = (if 0x41 \<le> c \<and> c \<le> 0x5A then c + 0x20 else c)"

fun startsWithCI :: "jstring \<Rightarrow> jstring \<Rightarrow> bool" where
  "startsWithCI s [] = True"
| "startsWithCI [] (p # ps) = False"
| "startsWithCI (c # cs) (p # ps) = (lowerASCII c = lowerASCII p \<and> startsWithCI cs ps)"

fun containsWhere :: "(jstring \<Rightarrow> bool) \<Rightarrow> jstring \<Rightarrow> bool" where
  "containsWhere P [] = P []"
| "containsWhere P (c # cs) = (P (c # cs) \<or> containsWhere P cs)"

text \<open>
  The look-behind \<open>(?<=<script>.*?=+?\s+?[`].*?)\<close> under the flags \<open>i\<close> and \<open>s\<close>, read
  on the text \<open>bf\<close> before the position: somewhere an opening \<open><script></script>\<close> tag in any
  letter case, after it an equals sign, white space and a backtick.
\<close>

definition assignsBacktick :: "jstring \<Rightarrow> bool" where
  "assignsBacktick s =
     (startsWith s (str ''='') \<and> takeWhile isWhiteSpace (drop 1 s) \<noteq> [] \<and>
      startsWith (dropWhile isWhiteSpace (drop 1 s)) [0x60])"

definition lookBehindOk :: "jstring \<Rightarrow> bool" where
  "lookBehindOk bf =
     containsWhere (\<lambda>s. startsWithCI s (str ''<script>'') \<and> containsWhere assignsBacktick (drop 8 s)) bf"

text \<open>The look-ahead \<open>(?=.*?[`]{1}?.*?;)\<close>: a backtick, and a semicolon after it.\<close>

definition lookAheadOk :: "jstring \<Rightarrow> bool" where
  "lookAheadOk af =
     containsWhere (\<lambda>s. startsWith s [0x60] \<and> 0x3B \<in> set (drop 1 s)) af"

text \<open>
  \<open>text.replace(escRegex, ESCAPED_SCRIPT_TAG)\<close>: each closing tag (in any letter case)
  for which both look-arounds hold; \<open>bf\<close> is the text before the position.
\<close>

function escapeScriptFrom :: "jstring \<Rightarrow> jstring \<Rightarrow> jstring" where
  "escapeScriptFrom bf [] = []"
| "escapeScriptFrom bf (c # cs) =
     (if startsWithCI (c # cs) (str ''</script>'') \<and> lookBehindOk bf \<and> lookAheadOk (drop 8 cs)
      then ESCAPED_SCRIPT_TAG @ escapeScriptFrom (bf @ take 9 (c # cs)) (drop 8 cs)
      else c # escapeScriptFrom (bf @ [c]) cs)"
  by pat_completeness auto
termination
  by (relation "measure (\<lambda>(bf, s). length s)") auto

definition escapeClosingTags :: "jstring \<Rightarrow> jstring" where
  "escapeClosingTags text = escapeScriptFrom [] text"

text \<open>
  \<open>/<script\b[^>]*>(.*?)<\/script>/gs\<close>: the word boundary asks for a character after
  \<open><script\<close> that is no letter, digit or underscore.
\<close>

definition isWordChar :: "codeUnit \<Rightarrow> bool" where
  "isWordChar c =
     ((0x30 \<le> c \<and> c \<le> 0x39) \<or> (0x41 \<le> c \<and> c \<le> 0x5A) \<or>
      (0x61 \<le> c \<and> c \<le> 0x7A) \<or> c = 0x5F)"

definition scriptTagAt :: "jstring \<Rightarrow> jstring option" where
  "scriptTagAt s =
     (if startsWith s (str ''<script'') \<and> \<not> (case drop 7 s of [] \<Rightarrow> False | c # cs \<Rightarrow> isWordChar c)
      then (case lazyUntil (notChar 0x3E) (str ''>'') (drop 7 s) of
              None \<Rightarrow> None
            | Some a \<Rightarrow>
                (case lazyUntil anyChar (str ''</script>'') (drop (7 + length a) s) of
                   None \<Rightarrow> None
                 | Some b \<Rightarrow> Some ((str ''<script'') @ a @ b)))
      else None)"

definition scriptTagsOf :: "jstring \<Rightarrow> jstring list" where
  "scriptTagsOf escapedText =
     (case jsMatch scriptTagAt escapedText of None \<Rightarrow> [] | Some ts \<Rightarrow> ts)"

text \<open>
  \<open>scriptTag.replaceAll(/(^\s*<!--\s*$|^\s*-->\s*$)/gm, '')\<close>. With the \<open>m\<close> flag \<open>^\<close>
  holds at the start of the text and after a line terminator, \<open>$\<close> at the end and
  before a line terminator. \<open>markerLineAt mk s\<close> matches \<open>\s*mk\s*$\<close> at the start of \<open>s\<close>:
  the last \<open>\s*\<close> is greedy and gives back characters until \<open>$\<close> holds, so it stops
  before the last line terminator of the white space after the marker, or takes all of
  it when the text ends there.
\<close>

definition markerLineAt :: "jstring \<Rightarrow> jstring \<Rightarrow> jstring option" where
  "markerLineAt mk s =
     (let lead = takeWhile isWhiteSpace s; s1 = dropWhile isWhiteSpace s in
      if \<not> startsWith s1 mk then None
      else let w = takeWhile isWhiteSpace (drop (length mk) s1);
               r = dropWhile isWhiteSpace (drop (length mk) s1) in
      if r = [] then Some (lead @ mk @ w)
      else if \<exists>c \<in> set w. isLineTerminator c
        then Some (lead @ mk @ butlast (rev (dropWhile notLT (rev w))))
      else None)"

definition commentLineAt :: "jstring \<Rightarrow> jstring option" where
  "commentLineAt s =
     (case markerLineAt (str ''<!--'') s of Some x \<Rightarrow> Some x | None \<Rightarrow> markerLineAt (str ''-->'') s)"

definition atLineStart :: "codeUnit option \<Rightarrow> bool" where
  "atLineStart prev = (case prev of None \<Rightarrow> True | Some p \<Rightarrow> isLineTerminator p)"

function trimLinesFrom :: "codeUnit option \<Rightarrow> jstring \<Rightarrow> jstring" where
  "trimLinesFrom prev [] = []"
| "trimLinesFrom prev (c # cs) =
     (case (if atLineStart prev then commentLineAt (c # cs) else None) of
        Some x \<Rightarrow> trimLinesFrom (Some (last (c # x))) (drop (length x - 1) cs)
      | None \<Rightarrow> c # trimLinesFrom (Some c) cs)"
  by pat_completeness auto
termination
  by (relation "measure (\<lambda>(p, s). length s)") auto

definition trimCommentLines :: "jstring \<Rightarrow> jstring" where
  "trimCommentLines scriptTag = trimLinesFrom None scriptTag"

subsection \<open>The loop over the script tags\<close>

definition minifyScriptTag :: "jstring \<Rightarrow> jstring \<Rightarrow> jstring" where
  "minifyScriptTag htmlWithEmbeddedJsCode scriptTag =
     (let originalJsCode = replaceFirst ESCAPED_SCRIPT_TAG (str ''</script>'') scriptTag;
          trimmedScriptTag = trimCommentLines scriptTag;
          minifiedJsCode = escapeDollar (minifyJsCode trimmedScriptTag True)
      in replaceFirst originalJsCode minifiedJsCode htmlWithEmbeddedJsCode)"

definition embedMinified :: "jstring \<Rightarrow> jstring" where
  "embedMinified text =
     foldl minifyScriptTag text (scriptTagsOf (escapeClosingTags text))"

section \<open>The class: values, failures, the log\<close>

text \<open>
  The methods are called with a JavaScript value. A method of \<open>String\<close> called on
  \<open>undefined\<close> or \<open>null\<close> throws a \<open>TypeError\<close>; \<open>encodeURI\<close> throws a \<open>URIError\<close> on a
  text with a surrogate that has no partner; the host functions behind \<open>toDataURL\<close>
  (\<open>Blob\<close>, \<open>URL.createObjectURL\<close>) are not part of the repository and are a parameter
  that gives a URL or throws. A try block is a value of \<open>jserror + 'a\<close> (\<open>Inl\<close> the
  exception); what the caller of a method observes is a \<open>completion\<close>.
\<close>

datatype jsval = JUndefined | JNull | JString jstring

datatype jserror = TypeError | URIError | HostError

datatype completion = Return jsval | Throw jserror

type_synonym console = "jserror list"

type_synonym host = "jstring \<Rightarrow> jstring \<Rightarrow> jserror + jstring"

record minificationLog =
  originalText :: jsval
  originalSize :: nat
  originalDataURL :: jstring
  minifiedText :: jsval
  minifiedSize :: nat
  minifiedDataURL :: jstring

record minifier =
  minificationLogs :: "minificationLog list"
  logEnabled :: bool

definition toStringJS :: "jsval \<Rightarrow> jstring" where
  "toStringJS v = (case v of JUndefined \<Rightarrow> (str ''undefined'') | JNull \<Rightarrow> (str ''null'') | JString s \<Rightarrow> s)"

text \<open>
  \<open>encodeURI(text).replace(/%../g, "*").length\<close>. \<open>encodeURI\<close> copies the code units
  it does not escape and writes every other code point as its bytes in UTF-8, each byte as
  a percent sign and two digits, which the replacement turns into one character; so the
  length is one for a code unit below 0x80, two below 0x800, four for a surrogate pair and
  three otherwise. A high surrogate (0xD800 to 0xDBFF) that is not followed by a low one
  (0xDC00 to 0xDFFF), and a low surrogate that follows no high one, make \<open>encodeURI\<close>
  throw.
\<close>

definition isHighSurrogate :: "codeUnit \<Rightarrow> bool" where
  "isHighSurrogate c = (0xD800 \<le> c \<and> c \<le> 0xDBFF)"

definition isLowSurrogate :: "codeUnit \<Rightarrow> bool" where
  "isLowSurrogate c = (0xDC00 \<le> c \<and> c \<le> 0xDFFF)"

fun byteSize :: "jstring \<Rightarrow> jserror + nat" where
  "byteSize [] = Inr 0"
| "byteSize (c # cs) =
     (if isLowSurrogate c then Inl URIError
      else if isHighSurrogate c then
        (case cs of
           [] \<Rightarrow> Inl URIError
         | d # ds \<Rightarrow>
             if isLowSurrogate d then map_sum id (\<lambda>n. 4 + n) (byteSize ds) else Inl URIError)
      else map_sum id (\<lambda>n. (if c < 0x80 then 1 else if c < 0x800 then 2 else 3) + n)
             (byteSize cs))"

definition clearLog :: "minifier \<Rightarrow> minifier" where
  "clearLog this = this\<lparr>minificationLogs := []\<rparr>"

subsection \<open>minifyJsCode as a method\<close>

definition tryMinifyJsCode :: "jsval \<Rightarrow> bool \<Rightarrow> jserror + jstring" where
  "tryMinifyJsCode inputJsCode isEmbed =
     (case inputJsCode of
        JString s \<Rightarrow> Inr (minifyJsCode s isEmbed)
      | _ \<Rightarrow> Inl TypeError)"

text \<open>The catch block writes the error to the console and the method returns nothing.\<close>

definition callMinifyJsCode :: "jsval \<Rightarrow> bool \<Rightarrow> console \<Rightarrow> completion \<times> console" where
  "callMinifyJsCode inputJsCode isEmbed con =
     (case tryMinifyJsCode inputJsCode isEmbed of
        Inr s \<Rightarrow> (Return (JString s), con)
      | Inl error \<Rightarrow> (Return JUndefined, con @ [error]))"

definition returned :: "completion \<Rightarrow> jsval" where
  "returned c = (case c of Return v \<Rightarrow> v | Throw e \<Rightarrow> JUndefined)"

subsection \<open>minifyJsFile and minifyJsInHtml\<close>

text \<open>
  The lines both methods share: the log record is built, its fields in the order of the
  source (the size and the URL of the original text, then those of the minified text),
  pushed, and the log is cleared when \<open>logEnabled\<close> is false.
\<close>

definition logAndReturn ::
  "host \<Rightarrow> jstring \<Rightarrow> jsval \<Rightarrow> jsval \<Rightarrow> minifier \<Rightarrow> jserror + (jsval \<times> minifier)" where
  "logAndReturn toDataURL mime text minified this =
     (case byteSize (toStringJS text) of
        Inl e \<Rightarrow> Inl e
      | Inr n1 \<Rightarrow>
     (case toDataURL (toStringJS text) mime of
        Inl e \<Rightarrow> Inl e
      | Inr u1 \<Rightarrow>
     (case byteSize (toStringJS minified) of
        Inl e \<Rightarrow> Inl e
      | Inr n2 \<Rightarrow>
     (case toDataURL (toStringJS minified) mime of
        Inl e \<Rightarrow> Inl e
      | Inr u2 \<Rightarrow>
          (let minificationLog =
                 \<lparr>originalText = text,
                  originalSize = n1,
                  originalDataURL = u1,
                  minifiedText = minified,
                  minifiedSize = n2,
                  minifiedDataURL = u2\<rparr>;
               this = this\<lparr>minificationLogs := minificationLogs this @ [minificationLog]\<rparr>;
               this = (if \<not> logEnabled this then clearLog this else this)
           in Inr (minified, this))))))"

definition tryMinifyJsFile ::
  "host \<Rightarrow> jsval \<Rightarrow> minifier \<Rightarrow> console \<Rightarrow> (jserror + (jsval \<times> minifier)) \<times> console" where
  "tryMinifyJsFile toDataURL text this con =
     (let (c, con) = callMinifyJsCode text False con
      in (logAndReturn toDataURL (str ''text/javascript'') text (returned c) this, con))"

definition callMinifyJsFile ::
  "host \<Rightarrow> jsval \<Rightarrow> minifier \<Rightarrow> console \<Rightarrow> completion \<times> minifier \<times> console" where
  "callMinifyJsFile toDataURL text this con =
     (case tryMinifyJsFile toDataURL text this con of
        (Inr (v, this'), con') \<Rightarrow> (Return v, this', con')
      | (Inl error, con') \<Rightarrow> (Return JUndefined, this, con' @ [error]))"

definition tryMinifyJsInHtml ::
  "host \<Rightarrow> jsval \<Rightarrow> minifier \<Rightarrow> console \<Rightarrow> (jserror + (jsval \<times> minifier)) \<times> console" where
  "tryMinifyJsInHtml toDataURL text this con =
     (case text of
        JString s \<Rightarrow>
          (logAndReturn toDataURL (str ''text/html'') text (JString (embedMinified s)) this, con)
      | _ \<Rightarrow> (Inl TypeError, con))"

definition callMinifyJsInHtml ::
  "host \<Rightarrow> jsval \<Rightarrow> minifier \<Rightarrow> console \<Rightarrow> completion \<times> minifier \<times> console" where
  "callMinifyJsInHtml toDataURL text this con =
     (case tryMinifyJsInHtml toDataURL text this con of
        (Inr (v, this'), con') \<Rightarrow> (Return v, this', con')
      | (Inl error, con') \<Rightarrow> (Return JUndefined, this, con' @ [error]))"

section \<open>Basic facts about the primitives\<close>

text \<open>The equation of \<open>decimal\<close> calls itself and is applied by hand.\<close>

declare str_def [simp]

declare decimal.simps [simp del]

lemma startsWith_iff: "startsWith s p \<longleftrightarrow> prefix p s"
  by (induction s p rule: startsWith.induct) auto

lemma startsWith_append: "startsWith s p \<longleftrightarrow> (\<exists>r. s = p @ r)"
  by (simp add: startsWith_iff prefix_def)

lemma lazyUntil_prefix: "lazyUntil ok cl s = Some m \<Longrightarrow> prefix m s"
  by (induction ok cl s arbitrary: m rule: lazyUntil.induct)
     (auto simp: startsWith_iff split: if_splits)

lemma spanAt_prefix: "spanAt op ok cl s = Some x \<Longrightarrow> prefix x s"
  by (auto simp: spanAt_def startsWith_append split: if_splits dest!: lazyUntil_prefix)

lemma set_gmatch:
  "(\<And>t x r. m t = Some (x, r) \<Longrightarrow> set x \<subseteq> set t) \<Longrightarrow> x \<in> set (gmatch m s) \<Longrightarrow> set x \<subseteq> set s"
proof (induction m s rule: gmatch.induct)
  case (1 m)
  then show ?case by simp
next
  case (2 m c cs)
  show ?case
  proof (cases "m (c # cs)")
    case None
    with 2 show ?thesis by auto
  next
    case (Some p)
    obtain y r where p: "p = (y, r)" by (cases p)
    from 2(4) Some p have "x = y \<or> x \<in> set (gmatch m (drop (length y - 1) cs))" by simp
    then show ?thesis
    proof
      assume "x = y" with 2(3) Some p show ?thesis by blast
    next
      assume "x \<in> set (gmatch m (drop (length y - 1) cs))"
      with 2(2)[OF Some p[symmetric]] 2(3) have "set x \<subseteq> set (drop (length y - 1) cs)" by blast
      then show ?thesis using set_drop_subset[of "length y - 1" cs] by auto
    qed
  qed
qed

lemma set_greplace:
  "(\<And>t x r. m t = Some (x, r) \<Longrightarrow> set r \<subseteq> A) \<Longrightarrow> set (greplace m s) \<subseteq> set s \<union> A"
proof (induction m s rule: greplace.induct)
  case (1 m)
  then show ?case by simp
next
  case (2 m c cs)
  show ?case
  proof (cases "m (c # cs)")
    case None
    with 2 show ?thesis by auto
  next
    case (Some p)
    obtain y r where p: "p = (y, r)" by (cases p)
    have "set (greplace m (drop (length y - 1) cs)) \<subseteq> set (drop (length y - 1) cs) \<union> A"
      using 2(2)[OF Some p[symmetric]] 2(3) by blast
    moreover have "set r \<subseteq> A" using 2(3) Some p by blast
    ultimately show ?thesis using set_drop_subset[of "length y - 1" cs] Some p by auto
  qed
qed


lemma set_dollarStep:
  "set (fst (dollarStep mt bf af caps d t)) \<subseteq> set mt \<union> set bf \<union> set af \<union> \<Union> (set ` set caps) \<union> {0x24}"
proof -
  have nth: "\<And>i. 1 \<le> i \<Longrightarrow> i \<le> length caps \<Longrightarrow> set (caps ! (i - 1)) \<subseteq> \<Union> (set ` set caps)"
    by (metis Sup_upper diff_less image_eqI less_le_trans nth_mem zero_less_one)
  show ?thesis
    using nth by (auto simp: dollarStep_def split: list.split)
qed

lemma set_snd_dollarStep: "set (snd (dollarStep mt bf af caps d t)) \<subseteq> set (d # t)"
  by (auto simp: dollarStep_def split: list.split)

lemma set_getSubstitution:
  "set (getSubstitution mt bf af caps t) \<subseteq> set mt \<union> set bf \<union> set af \<union> \<Union> (set ` set caps) \<union> set t"
proof (induction mt bf af caps t rule: getSubstitution.induct)
  case (1 mt bf af caps)
  then show ?case by simp
next
  case (2 mt bf af caps c)
  then show ?case by simp
next
  case (3 mt bf af caps c d t)
  show ?case
  proof (cases "c = 0x24")
    case True
    with 3(1) have "set (getSubstitution mt bf af caps (snd (dollarStep mt bf af caps d t)))
       \<subseteq> set mt \<union> set bf \<union> set af \<union> \<Union> (set ` set caps) \<union> set (d # t)"
      using set_snd_dollarStep[of mt bf af caps d t] by blast
    with True set_dollarStep[of mt bf af caps d t] show ?thesis by auto
  next
    case False
    with 3(2) show ?thesis by auto
  qed
qed

lemma set_replaceChar: "set (replaceChar a b s) \<subseteq> (set s - {a}) \<union> {b}"
  by (auto simp: replaceChar_def)

lemma restoreRegexQuotes_clean: "set (restoreRegexQuotes t) \<inter> markers = {}"
proof -
  have 1: "0x10 \<notin> set (restoreBacktickInRegexPattern t)"
    using set_replaceChar[of "0x10" "0x60" t] by (auto simp: restoreBacktickInRegexPattern_def)
  have 2: "0x0F \<notin> set (restoreAposInRegexPattern u)" for u
    using set_replaceChar[of "0x0F" "0x27" u] by (auto simp: restoreAposInRegexPattern_def)
  have 3: "0x10 \<notin> set u \<Longrightarrow> 0x10 \<notin> set (restoreAposInRegexPattern u)" for u
    using set_replaceChar[of "0x0F" "0x27" u] by (auto simp: restoreAposInRegexPattern_def)
  have 4: "set (restoreQuotInRegexPattern u) \<subseteq> (set u - {0x0E}) \<union> {0x22}" for u
    using set_replaceChar[of "0x0E" "0x22" u] by (auto simp: restoreQuotInRegexPattern_def)
  show ?thesis
    unfolding restoreRegexQuotes_def markers_def
    using 1 2 3 4[of "restoreAposInRegexPattern (restoreBacktickInRegexPattern t)"] by auto
qed

lemma scriptOpenAt_sets:
  "scriptOpenAt s = Some (m, r) \<Longrightarrow> set m \<subseteq> set s \<and> set r \<subseteq> set s"
  by (auto simp: scriptOpenAt_def Let_def split: if_splits
      dest!: in_set_takeD in_set_dropD set_dropWhileD)

lemma set_trimScriptOpen: "set (trimScriptOpen t) \<subseteq> set t \<union> set (str ''<script>'')"
  by (auto simp: trimScriptOpen_def split: option.splits if_splits
      dest!: scriptOpenAt_sets set_dropWhileD)

lemma set_joinWith: "set (joinWith sep xs) \<subseteq> set sep \<union> \<Union> (set ` set xs)"
  by (induction sep xs rule: joinWith.induct) auto

lemma preserveComment_sets:
  "preserveComment s = Some cs \<Longrightarrow> \<Union> (set ` set cs) \<subseteq> set s"
proof -
  assume a: "preserveComment s = Some cs"
  have "\<And>x. x \<in> set (gmatch (keeping (spanAt (str ''/*!'') anyChar (str ''*/''))) s) \<Longrightarrow> set x \<subseteq> set s"
    by (rule set_gmatch) (auto simp: keeping_def dest!: spanAt_prefix set_mono_prefix)
  moreover from a have "cs = gmatch (keeping (spanAt (str ''/*!'') anyChar (str ''*/''))) s"
    by (auto simp: preserveComment_def jsMatch_def split: list.splits)
  ultimately show ?thesis by auto
qed

lemma set_concatComments:
  "set (concatComments t cm) \<subseteq> set t \<union> {0x0A} \<union> (case cm of None \<Rightarrow> {} | Some cs \<Rightarrow> \<Union> (set ` set cs))"
  using set_joinWith[of "[0x0A]"]
  by (auto simp: concatComments_def split: option.splits)

lemma set_spliceComennts:
  "set (spliceComennts t cm) \<subseteq> set t \<union> {0x0A, 0x24, 0x31} \<union> (case cm of None \<Rightarrow> {} | Some cs \<Rightarrow> \<Union> (set ` set cs))"
proof (cases cm)
  case None
  then show ?thesis by (auto simp add: spliceComennts_def)
next
  case (Some cs)
  show ?thesis
  proof (cases "scriptOpenAt t")
    case None
    with Some show ?thesis by (auto simp add: spliceComennts_def)
  next
    case (Some p)
    obtain m r where p: "p = (m, r)" by (cases p)
    have mr: "set m \<subseteq> set t" "set r \<subseteq> set t"
      using scriptOpenAt_sets Some p by auto
    define T where "T = (str ''$1'') @ [0x0A] @ joinWith [0x0A] cs @ [0x0A]"
    have T: "set T \<subseteq> {0x0A, 0x24, 0x31} \<union> \<Union> (set ` set cs)"
      using set_joinWith[of "[0x0A]" cs] by (auto simp: T_def)
    have "set (getSubstitution m [] r [m] T) \<subseteq> set m \<union> set r \<union> set T"
      using set_getSubstitution[of m "[]" r "[m]" T] by auto
    with mr T have "set (getSubstitution m [] r [m] T @ r)
        \<subseteq> set t \<union> {0x0A, 0x24, 0x31} \<union> \<Union> (set ` set cs)" by auto
    moreover have "spliceComennts t cm = getSubstitution m [] r [m] T @ r"
      using Some p \<open>cm = Some cs\<close> by (simp add: spliceComennts_def T_def)
    ultimately show ?thesis using \<open>cm = Some cs\<close> by simp
  qed
qed
section \<open>Facts about the scans\<close>

lemma startsWith_Nil_iff [simp]: "startsWith [] p \<longleftrightarrow> p = []"
  by (cases p) auto

lemma startsWith_hd: "startsWith (c # cs) (p # ps) \<Longrightarrow> c = p"
  by simp

lemma startsWith_nth:
  "startsWith s (p @ [z]) \<Longrightarrow> length p < length s \<and> s ! length p = z"
  by (auto simp: startsWith_iff prefix_def nth_append)

text \<open>A rule that cannot fire at any position of a segment passes the segment through.\<close>

lemma greplace_inert:
  "(\<And>t. t \<noteq> [] \<Longrightarrow> suffix t xs \<Longrightarrow> m (t @ ys) = None) \<Longrightarrow>
   greplace m (xs @ ys) = xs @ greplace m ys"
proof (induction xs)
  case Nil
  then show ?case by simp
next
  case (Cons x xs)
  have "m ((x # xs) @ ys) = None" by (rule Cons.prems) auto
  moreover have "greplace m (xs @ ys) = xs @ greplace m ys"
    by (rule Cons.IH, rule Cons.prems) (auto simp: suffix_Cons)
  ultimately show ?case by simp
qed

lemma gmatch_inert:
  "(\<And>t. t \<noteq> [] \<Longrightarrow> suffix t xs \<Longrightarrow> m (t @ ys) = None) \<Longrightarrow>
   gmatch m (xs @ ys) = gmatch m ys"
proof (induction xs)
  case Nil
  then show ?case by simp
next
  case (Cons x xs)
  have "m ((x # xs) @ ys) = None" by (rule Cons.prems) auto
  moreover have "gmatch m (xs @ ys) = gmatch m ys"
    by (rule Cons.IH, rule Cons.prems) (auto simp: suffix_Cons)
  ultimately show ?case by simp
qed

lemma greplace_inert_chars:
  "(\<And>c cs. c \<in> set xs \<Longrightarrow> m (c # cs) = None) \<Longrightarrow>
   greplace m (xs @ ys) = xs @ greplace m ys"
proof (rule greplace_inert)
  fix t assume "t \<noteq> []" "suffix t xs" and h: "\<And>c cs. c \<in> set xs \<Longrightarrow> m (c # cs) = None"
  then obtain c cs where "t = c # cs" "c \<in> set xs"
    by (cases t) (auto simp: suffix_def)
  with h show "m (t @ ys) = None" by simp
qed

lemma gmatch_inert_chars:
  "(\<And>c cs. c \<in> set xs \<Longrightarrow> m (c # cs) = None) \<Longrightarrow>
   gmatch m (xs @ ys) = gmatch m ys"
proof (rule gmatch_inert)
  fix t assume "t \<noteq> []" "suffix t xs" and h: "\<And>c cs. c \<in> set xs \<Longrightarrow> m (c # cs) = None"
  then obtain c cs where "t = c # cs" "c \<in> set xs"
    by (cases t) (auto simp: suffix_def)
  with h show "m (t @ ys) = None" by simp
qed

lemma greplace_inert_all:
  "(\<And>c cs. c \<in> set xs \<Longrightarrow> m (c # cs) = None) \<Longrightarrow> greplace m xs = xs"
  using greplace_inert_chars [of xs m "[]"] by simp

lemma gmatch_inert_all:
  "(\<And>c cs. c \<in> set xs \<Longrightarrow> m (c # cs) = None) \<Longrightarrow> gmatch m xs = []"
  using gmatch_inert_chars [of xs m "[]"] by simp

text \<open>A match at the head is replaced and the scan resumes behind it.\<close>

lemma greplace_match:
  "m (x @ ys) = Some (x, r) \<Longrightarrow> x \<noteq> [] \<Longrightarrow> greplace m (x @ ys) = r @ greplace m ys"
  by (cases x) auto

lemma gmatch_match:
  "m (x @ ys) = Some (x, r) \<Longrightarrow> x \<noteq> [] \<Longrightarrow> gmatch m (x @ ys) = x # gmatch m ys"
  by (cases x) auto

text \<open>The lazy star stops at the first closer.\<close>

lemma lazyUntil_first:
  "(\<And>c. c \<in> set xs \<Longrightarrow> ok c) \<Longrightarrow> z \<notin> set xs \<Longrightarrow> z \<notin> set p \<Longrightarrow>
   lazyUntil ok (p @ [z]) (xs @ p @ z # ys) = Some (xs @ p @ [z])"
proof (induction xs)
  case Nil
  have "startsWith (p @ z # ys) (p @ [z])"
    by (simp add: startsWith_iff)
  then show ?case by (cases "p @ z # ys") auto
next
  case (Cons x xs)
  have "\<not> startsWith ((x # xs) @ p @ z # ys) (p @ [z])"
  proof
    assume "startsWith ((x # xs) @ p @ z # ys) (p @ [z])"
    then have "((x # xs) @ p @ z # ys) ! length p = z" using startsWith_nth by blast
    moreover have "length p < length ((x # xs) @ p)" by simp
    then have "((x # xs) @ p @ z # ys) ! length p = ((x # xs) @ p) ! length p"
      by (metis append.assoc nth_append)
    moreover have "((x # xs) @ p) ! length p \<in> set ((x # xs) @ p)"
      by (rule nth_mem) simp
    ultimately show False using Cons.prems by auto
  qed
  moreover have "lazyUntil ok (p @ [z]) (xs @ p @ z # ys) = Some (xs @ p @ [z])"
    using Cons by auto
  moreover have "ok x" using Cons.prems by auto
  ultimately show ?case by simp
qed

lemma spanAt_first:
  "(\<And>c. c \<in> set xs \<Longrightarrow> ok c) \<Longrightarrow> z \<notin> set xs \<Longrightarrow> z \<notin> set p \<Longrightarrow>
   spanAt op ok (p @ [z]) (op @ xs @ p @ z # ys) = Some (op @ xs @ p @ [z])"
  by (simp add: spanAt_def startsWith_iff lazyUntil_first)

lemma spanAt_None_hd: "op \<noteq> [] \<Longrightarrow> c \<noteq> hd op \<Longrightarrow> spanAt op ok cl (c # cs) = None"
  by (cases op) (auto simp: spanAt_def)

section \<open>Facts about the literal scans\<close>

lemma minifyJsCode_unfold:
  "minifyJsCode inputJsCode isEmbed =
     (if isEmbed then spliceComennts (minifiedCode inputJsCode) (preserveComment inputJsCode)
      else concatComments (minifiedCode inputJsCode) (preserveComment inputJsCode))"
  by (simp add: minifyJsCode_def minifiedCode_def Let_def)

lemma spanAt_nonempty: "spanAt op ok cl s = Some x \<Longrightarrow> op \<noteq> [] \<Longrightarrow> x \<noteq> []"
  by (auto simp: spanAt_def split: if_splits)

lemma scan_weave:
  assumes f: "\<And>t x. f t = Some x \<Longrightarrow> prefix x t \<and> x \<noteq> []"
  shows "\<exists>gaps. length gaps = Suc (length (gmatch (keeping f) s)) \<and>
           s = weave gaps (gmatch (keeping f) s) \<and> greplace (deleting f) s = concat gaps"
proof (induction s rule: length_induct)
  case (1 s)
  show ?case
  proof (cases s)
    case Nil
    then show ?thesis by (intro exI [of _ "[[]]"]) simp
  next
    case (Cons c cs)
    show ?thesis
    proof (cases "f s")
      case None
      from 1 Cons obtain gaps where g: "length gaps = Suc (length (gmatch (keeping f) cs))"
        "cs = weave gaps (gmatch (keeping f) cs)" "greplace (deleting f) cs = concat gaps"
        by auto
      then obtain g gs where gg: "gaps = g # gs" by (cases gaps) auto
      have w: "c # weave (g # gs) ms = weave ((c # g) # gs) ms" for ms
        by (cases ms) auto
      have k: "keeping f (c # cs) = None" "deleting f (c # cs) = None"
        using None Cons by (simp_all add: keeping_def deleting_def)
      show ?thesis
        using k Cons g gg w [symmetric]
        by (intro exI [of _ "(c # g) # gs"]) simp
    next
      case (Some x)
      from f [OF Some] obtain r where x: "s = x @ r" "x \<noteq> []" by (auto simp: prefix_def)
      with Cons have r: "r = drop (length x - 1) cs" by (cases x) auto
      from x have "length r < length s" by simp
      with 1 obtain gaps where g: "length gaps = Suc (length (gmatch (keeping f) r))"
        "r = weave gaps (gmatch (keeping f) r)" "greplace (deleting f) r = concat gaps"
        by blast
      have k: "keeping f (c # cs) = Some (x, x)" "deleting f (c # cs) = Some (x, [])"
        using Some Cons by (simp_all add: keeping_def deleting_def)
      show ?thesis
        using k Cons g x r
        by (intro exI [of _ "[] # gaps"]) simp
    qed
  qed
qed

lemma gmatch_elem:
  "x \<in> set (gmatch m s) \<Longrightarrow> \<exists>t r. m t = Some (x, r)"
proof (induction m s rule: gmatch.induct)
  case (1 m)
  then show ?case by simp
next
  case (2 m c cs)
  show ?case
  proof (cases "m (c # cs)")
    case None
    with 2 show ?thesis by auto
  next
    case (Some p)
    obtain y r where p: "p = (y, r)" by (cases p)
    from 2(3) Some p have "x = y \<or> x \<in> set (gmatch m (drop (length y - 1) cs))" by simp
    then show ?thesis
    proof
      assume "x = y" with Some p show ?thesis by blast
    next
      assume "x \<in> set (gmatch m (drop (length y - 1) cs))"
      with 2(2)[OF Some p[symmetric]] show ?thesis by blast
    qed
  qed
qed

lemma lazyUntil_shape:
  "lazyUntil (notChar q) [q] s = Some m \<Longrightarrow> \<exists>b. m = b @ [q] \<and> q \<notin> set b"
proof (induction s arbitrary: m)
  case Nil
  then show ?case by simp
next
  case (Cons c cs)
  show ?case
  proof (cases "c = q")
    case True
    with Cons.prems show ?thesis by simp
  next
    case False
    then have "notChar q c" by (simp add: notChar_def)
    with Cons.prems False obtain m' where "lazyUntil (notChar q) [q] cs = Some m'" "m = c # m'"
      by auto
    with Cons.IH False show ?thesis by (metis append_Cons set_ConsD)
  qed
qed

lemma spanAt_delimited:
  "spanAt [q] (notChar q) [q] s = Some x \<Longrightarrow> delimitedBy q x"
  by (auto simp: spanAt_def delimitedBy_def split: if_splits dest!: lazyUntil_shape)

lemma weave_sublist:
  "length gaps = Suc (length xs) \<Longrightarrow> x \<in> set xs \<Longrightarrow> sublist x (weave gaps xs)"
proof (induction gaps xs rule: weave.induct)
  case (3 g gs y ys)
  show ?case
  proof (cases "x = y")
    case True
    then show ?thesis by (auto simp: sublist_def)
  next
    case False
    with 3 have "sublist x (weave gs ys)" by auto
    then obtain ps ss where "weave gs ys = ps @ x @ ss" by (auto simp: sublist_def)
    then have "weave (g # gs) (y # ys) = (g @ y @ ps) @ x @ ss" by simp
    then show ?thesis unfolding sublist_def by blast
  qed
qed auto

section \<open>Facts about replacement and about the opening script tag\<close>

subsection \<open>Replacement templates without a dollar sign\<close>

lemma getSubstitution_plain:
  "0x24 \<notin> set t \<Longrightarrow> getSubstitution mt bf af caps t = t"
  by (induction mt bf af caps t rule: getSubstitution.induct) auto

lemma getSubstitution_Cons_plain:
  "c \<noteq> 0x24 \<Longrightarrow> getSubstitution mt bf af caps (c # t) = c # getSubstitution mt bf af caps t"
  by (cases t) auto

lemma getSubstitution_dollar_dollar:
  "getSubstitution mt bf af caps (0x24 # 0x24 # t) = 0x24 # getSubstitution mt bf af caps t"
  by (simp add: dollarStep_def)

lemma getSubstitution_first_capture:
  "\<not> isDigit e \<Longrightarrow>
   getSubstitution mt bf af [c1] (0x24 # 0x31 # e # t) = c1 @ getSubstitution mt bf af [c1] (e # t)"
  by (simp add: dollarStep_def isDigit_def digitVal_def)

subsection \<open>A text before the first occurrence is kept by replace\<close>

lemma replaceFirstFrom_skip:
  "pat \<noteq> [] \<Longrightarrow> hd pat \<notin> set P \<Longrightarrow>
   replaceFirstFrom bf pat tmpl (P @ r) = P @ replaceFirstFrom (bf @ P) pat tmpl r"
proof (induction P arbitrary: bf)
  case Nil
  then show ?case by simp
next
  case (Cons c P)
  then obtain p ps where p: "pat = p # ps" "c \<noteq> p" by (cases pat) auto
  with Cons show ?case by simp
qed

lemma replaceFirst_keeps_prefix:
  "prefix P s \<Longrightarrow> pat \<noteq> [] \<Longrightarrow> hd pat \<notin> set P \<Longrightarrow> prefix P (replaceFirst pat tmpl s)"
  by (auto simp: prefix_def replaceFirst_def replaceFirstFrom_skip)

lemma setLiteralsFrom_keeps_prefix:
  "prefix P t \<Longrightarrow> (\<And>l. l \<in> set ls \<Longrightarrow> patternText l \<noteq> [] \<and> hd (patternText l) \<notin> set P) \<Longrightarrow>
   prefix P (setLiteralsFrom i t ls)"
proof (induction ls arbitrary: i t)
  case Nil
  then show ?case by simp
next
  case (Cons l ls)
  have "prefix P (replaceFirst (patternText l) (placeholder i) t)"
    using Cons.prems by (intro replaceFirst_keeps_prefix) auto
  then show ?case using Cons by simp
qed

lemma placeholder_hd: "placeholder i = 0x65 # tl (placeholder i)"
  by (simp add: placeholder_def)

lemma getLiteralsFrom_keeps_prefix:
  "prefix P t \<Longrightarrow> 0x65 \<notin> set P \<Longrightarrow> prefix P (getLiteralsFrom i t ls)"
proof (induction ls arbitrary: i t)
  case Nil
  then show ?case by simp
next
  case (Cons l ls)
  have "prefix P (replaceFirst (placeholder i) (escapeDollar (literalText l)) t)"
    using Cons.prems by (intro replaceFirst_keeps_prefix) (auto simp: placeholder_def)
  then show ?case using Cons by simp
qed

lemma escapeLiterals_pattern_hd:
  assumes "l \<in> set (escapeLiterals t)"
  shows "patternText l \<noteq> [] \<and> hd (patternText l) \<in> {0x60, 0x22, 0x27, 0x6E}"
proof -
  from assms consider
      (n) "l = None"
    | (t) x where "l = Some x" "x \<in> set (gmatch (keeping templateAt) t)"
    | (q) x where "l = Some x" "x \<in> set (gmatch (keeping quotedAt) (greplace (deleting templateAt) t))"
    by (auto simp: escapeLiterals_def jsMatch_def split: list.splits)
  then show ?thesis
  proof cases
    case n
    then show ?thesis by (simp add: patternText_def)
  next
    case t
    then obtain u r where "keeping templateAt u = Some (x, r)" by (blast dest: gmatch_elem)
    then have "delimitedBy 0x60 x"
      by (auto simp: keeping_def templateAt_def dest: spanAt_delimited)
    with t show ?thesis by (cases x) (auto simp: patternText_def delimitedBy_def)
  next
    case q
    then obtain u r where "keeping quotedAt u = Some (x, r)" by (blast dest: gmatch_elem)
    then have "delimitedBy 0x22 x \<or> delimitedBy 0x27 x"
      by (auto simp: keeping_def quotedAt_def split: option.splits dest: spanAt_delimited)
    with q show ?thesis by (cases x) (auto simp: patternText_def delimitedBy_def)
  qed
qed

subsection \<open>The opening script tag passes every stage\<close>

lemma tabCrlfToSpace_Cons:
  "c \<noteq> 0x0D \<Longrightarrow>
   tabCrlfToSpace (c # cs) = (if c = 0x09 \<or> c = 0x0A then 0x20 else c) # tabCrlfToSpace cs"
  by (cases cs) auto

lemma escapeInRegexRule_None: "c \<noteq> 0x2F \<Longrightarrow> escapeInRegexRule q mk (c # cs) = None"
  by (simp add: escapeInRegexRule_def spanAt_def)

lemma symbolAt_None:
  "c \<notin> set (str ''(){}[]+-=u:;,'') \<Longrightarrow> symbolAt (c # cs) = None"
  by (simp add: symbolAt_def symbols_def)

lemma removeSpaceRule_None:
  "\<not> isWhiteSpace c \<Longrightarrow> c \<notin> set (str ''(){}[]+-=u:;,'') \<Longrightarrow> removeSpaceRule (c # cs) = None"
  by (simp add: removeSpaceRule_def symbolAt_None)

lemma replaceChar_append: "replaceChar a b (xs @ ys) = replaceChar a b xs @ replaceChar a b ys"
  by (simp add: replaceChar_def)

lemma replaceChar_id: "a \<notin> set xs \<Longrightarrow> replaceChar a b xs = xs"
  by (induction xs) (auto simp: replaceChar_def)

lemma restoreRegexQuotes_append:
  "restoreRegexQuotes (xs @ ys) = restoreRegexQuotes xs @ restoreRegexQuotes ys"
  by (simp add: restoreRegexQuotes_def restoreQuotInRegexPattern_def restoreAposInRegexPattern_def
      restoreBacktickInRegexPattern_def replaceChar_append)

lemma restoreRegexQuotes_id:
  "set xs \<inter> markers = {} \<Longrightarrow> restoreRegexQuotes xs = xs"
  by (simp add: restoreRegexQuotes_def restoreQuotInRegexPattern_def restoreAposInRegexPattern_def
      restoreBacktickInRegexPattern_def replaceChar_id markers_def)

lemma stripComments_script:
  "prefix (str ''<script>'') (stripComments ((str ''<script>'') @ r))"
proof -
  have 1: "removeHTMLComment ((str ''<script>'') @ r) = (str ''<script>'') @ removeHTMLComment r"
    by (simp add: removeHTMLComment_def deleting_def spanAt_def)
  have 2: "removeSLComment ((str ''<script>'') @ u) = (str ''<script>'') @ removeSLFrom (Some 0x3E) u" for u
    by (simp add: removeSLComment_def)
  have 3: "tabCrlfToSpace ((str ''<script>'') @ u) = (str ''<script>'') @ tabCrlfToSpace u" for u
    by (simp add: tabCrlfToSpace_Cons)
  have 4: "removeMLComment ((str ''<script>'') @ u) = (str ''<script>'') @ removeMLComment u" for u
    by (simp add: removeMLComment_def deleting_def spanAt_def)
  show ?thesis by (simp only: stripComments_def 1 2 3 4) simp
qed

lemma escapeRegexQuotes_script:
  "escapeRegexQuotes ((str ''<script>'') @ u) = (str ''<script>'') @ escapeRegexQuotes u"
proof -
  have "greplace (escapeInRegexRule q mk) ((str ''<script>'') @ v) = (str ''<script>'') @ greplace (escapeInRegexRule q mk) v" for q mk v
    by (rule greplace_inert_chars) (auto simp: escapeInRegexRule_None)
  then show ?thesis
    by (simp add: escapeRegexQuotes_def escapeQuotInRegexPattern_def escapeAposInRegexPattern_def
        escapeBacktickInRegexPattern_def del: append.simps)
qed

lemma removeSpace_script:
  "removeSpace ((str ''<script>'') @ u) = (str ''<script>'') @ removeSpace u"
  unfolding removeSpace_def
  by (rule greplace_inert_chars) (auto simp: removeSpaceRule_None isWhiteSpace_def)

lemma scriptOpenAt_script: "scriptOpenAt ((str ''<script>'') @ u) = Some ((str ''<script>''), u)"
  by (simp add: scriptOpenAt_def isWhiteSpace_def)

lemma trimScriptOpen_script:
  "trimScriptOpen ((str ''<script>'') @ u) = (str ''<script>'') @ dropWhile isWhiteSpace u"
proof (cases "takeWhile isWhiteSpace u = []")
  case True
  then have "dropWhile isWhiteSpace u = u"
    by (metis takeWhile_dropWhile_id append_Nil)
  with True show ?thesis by (simp only: trimScriptOpen_def scriptOpenAt_script) simp
next
  case False
  then show ?thesis by (simp only: trimScriptOpen_def scriptOpenAt_script) simp
qed

lemma minifiedCode_script:
  "\<exists>code. minifiedCode ((str ''<script>'') @ r) = (str ''<script>'') @ code"
proof -
  define t where "t = stripComments ((str ''<script>'') @ r)"
  define ls where "ls = escapeLiterals t"
  have p0: "prefix (str ''<script>'') t" unfolding t_def by (rule stripComments_script)
  have "prefix (str ''<script>'') (setLiteralsToValiable t ls)"
    unfolding setLiteralsToValiable_def
  proof (rule setLiteralsFrom_keeps_prefix [OF p0])
    fix l assume "l \<in> set ls"
    then show "patternText l \<noteq> [] \<and> hd (patternText l) \<notin> set (str ''<script>'')"
      using escapeLiterals_pattern_hd [of l t] unfolding ls_def by auto
  qed
  then obtain u1 where u1: "setLiteralsToValiable t ls = (str ''<script>'') @ u1"
    by (auto simp: prefix_def)
  have "prefix (str ''<script>'') (getLiteralsFromValiable ((str ''<script>'') @ removeSpace (escapeRegexQuotes u1)) ls)"
    unfolding getLiteralsFromValiable_def
    by (rule getLiteralsFrom_keeps_prefix) auto
  then obtain u2 where
    u2: "getLiteralsFromValiable ((str ''<script>'') @ removeSpace (escapeRegexQuotes u1)) ls = (str ''<script>'') @ u2"
    by (auto simp: prefix_def)
  have "restoreRegexQuotes ((str ''<script>'') @ u2) = (str ''<script>'') @ restoreRegexQuotes u2"
    by (simp only: restoreRegexQuotes_append) (simp add: restoreRegexQuotes_id markers_def)
  then have "minifiedCode ((str ''<script>'') @ r) = (str ''<script>'') @ dropWhile isWhiteSpace (restoreRegexQuotes u2)"
    using u1 u2
    by (simp only: minifiedCode_def Let_def t_def [symmetric] ls_def [symmetric]
        escapeRegexQuotes_script removeSpace_script trimScriptOpen_script)
  then show ?thesis by blast
qed

section \<open>Facts about the loop over the script tags\<close>

lemma escapeDollar_Nil [simp]: "escapeDollar [] = []"
  by (simp add: escapeDollar_def)

lemma escapeDollar_Cons:
  "escapeDollar (c # cs) = (if c = 0x24 then (str ''$$'') else [c]) @ escapeDollar cs"
  by (simp add: escapeDollar_def dollarStep_def)

lemma getSubstitution_escapeDollar:
  "getSubstitution mt bf af caps (escapeDollar l) = l"
proof (induction l)
  case Nil
  then show ?case by simp
next
  case (Cons c l)
  show ?case
  proof (cases "c = 0x24")
    case True
    then show ?thesis
      using Cons getSubstitution_dollar_dollar [of mt bf af caps "escapeDollar l"]
      by (simp add: escapeDollar_Cons del: getSubstitution.simps)
  next
    case False
    then show ?thesis
      using Cons getSubstitution_Cons_plain [of c mt bf af caps "escapeDollar l"]
      by (simp add: escapeDollar_Cons del: getSubstitution.simps)
  qed
qed

lemma replaceFirstFrom_at:
  "pat \<noteq> [] \<Longrightarrow> \<not> sublist pat (D @ butlast pat) \<Longrightarrow>
   replaceFirstFrom bf pat tmpl (D @ pat @ r) = D @ getSubstitution pat (bf @ D) r [] tmpl @ r"
proof (induction D arbitrary: bf)
  case Nil
  then obtain p ps where "pat = p # ps" by (cases pat) auto
  then show ?case by (simp add: startsWith_iff)
next
  case (Cons d D)
  have "\<not> startsWith ((d # D) @ pat @ r) pat"
  proof
    assume "startsWith ((d # D) @ pat @ r) pat"
    moreover have "(d # D) @ pat @ r = ((d # D) @ butlast pat) @ ([last pat] @ r)"
      using Cons.prems(1) append_butlast_last_id [of pat] by simp
    ultimately have "prefix pat (((d # D) @ butlast pat) @ ([last pat] @ r))"
      by (simp only: startsWith_iff)
    moreover have "length pat \<le> length ((d # D) @ butlast pat)" by simp
    ultimately have "prefix pat ((d # D) @ butlast pat)"
      by (metis prefix_length_prefix prefixI)
    then have "sublist pat ((d # D) @ butlast pat)" by (rule prefix_imp_sublist)
    with Cons.prems show False by simp
  qed
  moreover have "\<not> sublist pat (D @ butlast pat)"
    using Cons.prems(2) by (auto simp: sublist_Cons_right)
  ultimately show ?case using Cons by simp
qed

lemma replaceFirstFrom_absent:
  "pat \<noteq> [] \<Longrightarrow> \<not> sublist pat s \<Longrightarrow> replaceFirstFrom bf pat tmpl s = s"
proof (induction s arbitrary: bf)
  case Nil
  then show ?case by simp
next
  case (Cons c s)
  have "\<not> startsWith (c # s) pat"
    using Cons.prems(2) prefix_imp_sublist by (auto simp: startsWith_iff)
  moreover have "\<not> sublist pat s" using Cons.prems(2) by (auto simp: sublist_Cons_right)
  ultimately show ?case using Cons by simp
qed

section \<open>Facts about the comment stages\<close>

subsection \<open>Splitting a scan at a barrier\<close>

lemma startsWith_barrier:
  "c \<notin> set p \<Longrightarrow> startsWith (t @ c # ys) p = startsWith t p"
  by (induction t p rule: startsWith.induct) auto

lemma startsWith_append_cases:
  "startsWith (t @ ys) p \<Longrightarrow> startsWith t p \<or> (ys \<noteq> [] \<and> hd ys \<in> set p)"
proof (induction t p rule: startsWith.induct)
  case (2 p ps)
  then show ?case by (cases ys) auto
qed auto

lemma greplace_split:
  assumes "\<And>t. t \<noteq> [] \<Longrightarrow> suffix t xs \<Longrightarrow> m (t @ ys) = m t"
    and "\<And>t x r. m t = Some (x, r) \<Longrightarrow> prefix x t \<and> x \<noteq> []"
  shows "greplace m (xs @ ys) = greplace m xs @ greplace m ys"
  using assms(1)
proof (induction xs rule: length_induct)
  case (1 xs)
  show ?case
  proof (cases xs)
    case Nil
    then show ?thesis by simp
  next
    case (Cons c cs)
    have eq: "m ((c # cs) @ ys) = m (c # cs)" using 1(2) [of xs] Cons by simp
    show ?thesis
    proof (cases "m (c # cs)")
      case None
      have "greplace m (cs @ ys) = greplace m cs @ greplace m ys"
        using 1 Cons by (auto simp: suffix_Cons)
      with None eq Cons show ?thesis by simp
    next
      case (Some p)
      obtain x r where p: "p = (x, r)" by (cases p)
      from assms(2) Some p have x: "prefix x (c # cs)" "x \<noteq> []" by auto
      then have len: "length x - 1 \<le> length cs"
        by (auto dest!: prefix_length_le)
      have suf: "suffix (drop (length x - 1) cs) xs"
        using Cons by (simp add: suffix_Cons suffix_drop)
      have "greplace m (drop (length x - 1) cs @ ys) =
          greplace m (drop (length x - 1) cs) @ greplace m ys"
      proof -
        have "length (drop (length x - 1) cs) < length xs" using Cons by simp
        moreover have "\<And>t. t \<noteq> [] \<Longrightarrow> suffix t (drop (length x - 1) cs) \<Longrightarrow> m (t @ ys) = m t"
          using 1(2) suf suffix_order.trans by blast
        ultimately show ?thesis using 1(1) by blast
      qed
      with Some p eq Cons len show ?thesis by simp
    qed
  qed
qed

subsection \<open>removeHTMLComment and removeMLComment\<close>

lemma removeHTMLComment_inert:
  "0x3C \<notin> set xs \<Longrightarrow> removeHTMLComment (xs @ ys) = xs @ removeHTMLComment ys"
  unfolding removeHTMLComment_def
  by (rule greplace_inert_chars) (auto simp: deleting_def spanAt_def)

lemma removeHTMLComment_id: "0x3C \<notin> set xs \<Longrightarrow> removeHTMLComment xs = xs"
  using removeHTMLComment_inert [of xs "[]"] by (simp add: removeHTMLComment_def)

lemma removeHTMLComment_match:
  assumes "\<And>c. c \<in> set body \<Longrightarrow> notLT c" "0x3E \<notin> set body"
  shows "removeHTMLComment ((str ''<!--'') @ body @ (str ''-->'') @ post) = removeHTMLComment post"
proof -
  have "spanAt (str ''<!--'') notLT ((str ''--'') @ [0x3E]) ((str ''<!--'') @ body @ (str ''--'') @ 0x3E # post) =
      Some ((str ''<!--'') @ body @ (str ''--'') @ [0x3E])"
    using assms by (intro spanAt_first) auto
  then have "deleting (spanAt (str ''<!--'') notLT (str ''-->'')) (((str ''<!--'') @ body @ (str ''-->'')) @ post) =
      Some ((str ''<!--'') @ body @ (str ''-->''), [])"
    by (simp add: deleting_def)
  then show ?thesis
    using greplace_match [where m = "deleting (spanAt (str ''<!--'') notLT (str ''-->''))"
        and x = "(str ''<!--'') @ body @ (str ''-->'')" and ys = post and r = "[]"]
    by (simp add: removeHTMLComment_def)
qed

lemma set_removeHTMLComment: "set (removeHTMLComment s) \<subseteq> set s"
  using set_greplace [of "deleting (spanAt (str ''<!--'') notLT (str ''-->''))" "{}" s]
  by (auto simp: removeHTMLComment_def deleting_def)

lemma removeHTMLComment_hd:
  "\<not> startsWith s (str ''<'') \<Longrightarrow> startsWith (removeHTMLComment s) [c] = startsWith s [c]"
  by (cases s) (auto simp: removeHTMLComment_def deleting_def spanAt_def)

lemma removeMLComment_inert:
  "0x2F \<notin> set xs \<Longrightarrow> removeMLComment (xs @ ys) = xs @ removeMLComment ys"
  unfolding removeMLComment_def
  by (rule greplace_inert_chars) (auto simp: deleting_def spanAt_def)

lemma removeMLComment_id: "0x2F \<notin> set xs \<Longrightarrow> removeMLComment xs = xs"
  using removeMLComment_inert [of xs "[]"] by (simp add: removeMLComment_def)

lemma removeMLComment_match:
  assumes "\<And>c. c \<in> set body \<Longrightarrow> notLT c" "0x2F \<notin> set body"
  shows "removeMLComment ((str ''/*'') @ body @ (str ''*/'') @ post) = removeMLComment post"
proof -
  have "spanAt (str ''/*'') notLT ((str ''*'') @ [0x2F]) ((str ''/*'') @ body @ (str ''*'') @ 0x2F # post) =
      Some ((str ''/*'') @ body @ (str ''*'') @ [0x2F])"
    using assms by (intro spanAt_first) auto
  then have "deleting (spanAt (str ''/*'') notLT (str ''*/'')) (((str ''/*'') @ body @ (str ''*/'')) @ post) =
      Some ((str ''/*'') @ body @ (str ''*/''), [])"
    by (simp add: deleting_def)
  then show ?thesis
    using greplace_match [where m = "deleting (spanAt (str ''/*'') notLT (str ''*/''))"
        and x = "(str ''/*'') @ body @ (str ''*/'')" and ys = post and r = "[]"]
    by (simp add: removeMLComment_def)
qed

lemma set_removeMLComment: "set (removeMLComment s) \<subseteq> set s"
  using set_greplace [of "deleting (spanAt (str ''/*'') notLT (str ''*/''))" "{}" s]
  by (auto simp: removeMLComment_def deleting_def)

subsection \<open>removeSLComment\<close>

lemma removeSLFrom_inert:
  "0x2F \<notin> set xs \<Longrightarrow>
   removeSLFrom p (xs @ ys) = xs @ removeSLFrom (if xs = [] then p else Some (last xs)) ys"
  by (induction xs arbitrary: p) auto

lemma removeSLFrom_prev:
  "\<not> startsWith ys (str ''//'') \<Longrightarrow> removeSLFrom p ys = removeSLFrom q ys"
  by (cases ys) auto

lemma removeSLFrom_id: "0x2F \<notin> set xs \<Longrightarrow> removeSLFrom p xs = xs"
  using removeSLFrom_inert [of xs p "[]"] by simp

lemma removeSLFrom_match:
  assumes "p \<noteq> Some 0x3A" "\<And>c. c \<in> set body \<Longrightarrow> notLT c"
    "post = [] \<or> isLineTerminator (hd post)"
  shows "removeSLFrom p ((str ''//'') @ body @ post) = removeSLFrom q post"
proof -
  have nl: "notLT 0x2F" by (simp add: notLT_def isLineTerminator_def)
  have d: "dropWhile notLT (0x2F # body @ post) = post"
  proof (cases post)
    case Nil
    with assms(2) nl show ?thesis by simp
  next
    case (Cons a as)
    with assms(3) have "\<not> notLT a" by (simp add: notLT_def)
    with assms(2) nl Cons show ?thesis by (simp add: dropWhile_append3)
  qed
  have "\<not> startsWith post (str ''//'')"
    using assms(3) by (cases post) (auto simp: isLineTerminator_def)
  then have "removeSLFrom r post = removeSLFrom q post" for r
    by (rule removeSLFrom_prev)
  with assms(1) d show ?thesis by simp
qed

lemma set_removeSLFrom: "set (removeSLFrom p s) \<subseteq> set s"
proof (induction p s rule: removeSLFrom.induct)
  case (1 prev)
  then show ?case by simp
next
  case (2 prev c cs)
  show ?case
  proof (cases "startsWith (c # cs) (str ''//'') \<and> prev \<noteq> Some 0x3A")
    case True
    with 2(1) have "set (removeSLFrom prev (c # cs)) \<subseteq> set (dropWhile notLT cs)" by simp
    then show ?thesis using set_dropWhileD by fastforce
  next
    case False
    with 2(2) show ?thesis by auto
  qed
qed

subsection \<open>tabCrlfToSpace\<close>

lemma tabCrlfToSpace_append:
  "0x0D \<notin> set xs \<Longrightarrow> tabCrlfToSpace (xs @ ys) = tabCrlfToSpace xs @ tabCrlfToSpace ys"
proof (induction xs)
  case Nil
  then show ?case by simp
next
  case (Cons x xs)
  then have "x \<noteq> 0x0D" by auto
  with Cons show ?case by (simp add: tabCrlfToSpace_Cons)
qed

lemma tabCrlfToSpace_id:
  "set xs \<inter> {0x09, 0x0A, 0x0D} = {} \<Longrightarrow> tabCrlfToSpace xs = xs"
proof (induction xs)
  case Nil
  then show ?case by simp
next
  case (Cons x xs)
  then have "x \<noteq> 0x0D" "x \<noteq> 0x09" "x \<noteq> 0x0A" by auto
  with Cons show ?case by (simp add: tabCrlfToSpace_Cons)
qed

lemma set_tabCrlfToSpace: "set (tabCrlfToSpace xs) \<subseteq> set xs \<union> {0x20}"
  by (induction xs rule: tabCrlfToSpace.induct) auto

lemma tabCrlfToSpace_notLT:
  "set xs \<inter> {0x0D, 0x2028, 0x2029} = {} \<Longrightarrow> c \<in> set (tabCrlfToSpace xs) \<Longrightarrow> notLT c"
proof (induction xs)
  case Nil
  then show ?case by simp
next
  case (Cons x xs)
  then have "x \<noteq> 0x0D" by auto
  with Cons show ?case
    by (auto simp: tabCrlfToSpace_Cons notLT_def isLineTerminator_def split: if_splits)
qed

subsection \<open>A comment and the preserved comments\<close>

lemma preserveComment_cong:
  "gmatch (keeping (spanAt (str ''/*!'') anyChar (str ''*/''))) a = gmatch (keeping (spanAt (str ''/*!'') anyChar (str ''*/''))) b \<Longrightarrow>
   preserveComment a = preserveComment b"
  by (simp add: preserveComment_def jsMatch_def)

lemma preserved_inert:
  "0x2F \<notin> set xs \<Longrightarrow>
   gmatch (keeping (spanAt (str ''/*!'') anyChar (str ''*/''))) (xs @ ys) =
   gmatch (keeping (spanAt (str ''/*!'') anyChar (str ''*/''))) ys"
  by (rule gmatch_inert_chars) (auto simp: keeping_def spanAt_def)

lemma preserved_step:
  "\<not> startsWith (c # cs) (str ''/*!'') \<Longrightarrow>
   gmatch (keeping (spanAt (str ''/*!'') anyChar (str ''*/''))) (c # cs) =
   gmatch (keeping (spanAt (str ''/*!'') anyChar (str ''*/''))) cs"
proof -
  assume "\<not> startsWith (c # cs) (str ''/*!'')"
  then have "spanAt (str ''/*!'') anyChar (str ''*/'') (c # cs) = None" by (metis spanAt_def)
  then have "keeping (spanAt (str ''/*!'') anyChar (str ''*/'')) (c # cs) = None" by (simp add: keeping_def)
  then show ?thesis by simp
qed

lemma preserveComment_None: "0x2F \<notin> set s \<Longrightarrow> preserveComment s = None"
  using preserved_inert [of s "[]"] by (simp add: preserveComment_def jsMatch_def)

subsection \<open>Characters that a stage can bring in\<close>

lemma set_greplace_rule:
  "(\<And>t x r. m t = Some (x, r) \<Longrightarrow> set r \<subseteq> set t \<union> A) \<Longrightarrow> set (greplace m s) \<subseteq> set s \<union> A"
proof (induction m s rule: greplace.induct)
  case (1 m)
  then show ?case by simp
next
  case (2 m c cs)
  show ?case
  proof (cases "m (c # cs)")
    case None
    with 2 show ?thesis by auto
  next
    case (Some p)
    obtain y r where p: "p = (y, r)" by (cases p)
    have "set (greplace m (drop (length y - 1) cs)) \<subseteq> set (drop (length y - 1) cs) \<union> A"
      using 2(2)[OF Some p[symmetric]] 2(3) by blast
    moreover have "set r \<subseteq> set (c # cs) \<union> A" using 2(3) Some p by blast
    ultimately show ?thesis using set_drop_subset[of "length y - 1" cs] Some p by auto
  qed
qed

lemma set_stripComments: "set (stripComments s) \<subseteq> set s \<union> {0x20}"
proof -
  have "set (removeSLComment u) \<subseteq> set u" for u
    by (simp add: removeSLComment_def set_removeSLFrom)
  then show ?thesis
    unfolding stripComments_def
    using set_removeMLComment set_tabCrlfToSpace set_removeHTMLComment
    by (meson Un_mono order_refl subset_trans sup.boundedI sup_ge1 sup_ge2)
qed

lemma set_replaceFirstFrom:
  "set (replaceFirstFrom bf pat tmpl s) \<subseteq> set s \<union> set bf \<union> set tmpl"
proof (induction s arbitrary: bf)
  case Nil
  then show ?case using set_getSubstitution [of pat bf "[]" "[]" tmpl] by auto
next
  case (Cons c s)
  show ?case
  proof (cases "startsWith (c # s) pat")
    case True
    then have "set pat \<subseteq> set (c # s)" by (metis set_mono_prefix startsWith_iff)
    moreover have "set (drop (length pat) (c # s)) \<subseteq> set (c # s)" by (rule set_drop_subset)
    ultimately show ?thesis
      using True set_getSubstitution [of pat bf "drop (length pat) (c # s)" "[]" tmpl]
      by (simp del: getSubstitution.simps) blast
  next
    case False
    with Cons [of "bf @ [c]"] show ?thesis by auto
  qed
qed

lemma decimal_digits: "c \<in> set (decimal n) \<Longrightarrow> isDigit c"
proof (induction n rule: decimal.induct)
  case (1 n)
  have d: "k < 10 \<Longrightarrow> isDigit (int (48 + k))" for k :: nat
  proof -
    assume "k < 10"
    then have "k \<in> {0, 1, 2, 3, 4, 5, 6, 7, 8, 9}" by auto
    then show ?thesis by (auto simp: isDigit_def)
  qed
  have e: "decimal n = (if n < 10 then [int (48 + n)]
                else decimal (n div 10) @ [int (48 + n mod 10)])"
    by (rule decimal.simps)
  show ?case
  proof (cases "n < 10")
    case True
    with 1(2) e have "c = int (48 + n)" by simp
    with d True show ?thesis by simp
  next
    case False
    with 1(2) e have "c \<in> set (decimal (n div 10)) \<or> c = int (48 + n mod 10)" by auto
    with 1(1) [OF False] d [of "n mod 10"] show ?thesis by auto
  qed
qed

definition placeholderChars :: "codeUnit set" where
  "placeholderChars = set (str ''escapeString_____'') \<union> {c. isDigit c}"

lemma set_placeholder: "set (placeholder i) \<subseteq> placeholderChars"
proof
  fix c assume "c \<in> set (placeholder i)"
  then have "c \<in> set (str ''escapeString_____'') \<or> c \<in> set (replicate (5 - length (decimal i)) 0x30)
      \<or> c \<in> set (decimal i)"
    by (simp only: placeholder_def padStart_def set_append Un_iff)
  moreover have "isDigit 0x30" by (simp add: isDigit_def)
  moreover have "c \<in> set (replicate (5 - length (decimal i)) 0x30) \<Longrightarrow> c = 0x30"
    by (metis in_set_replicate)
  ultimately show "c \<in> placeholderChars"
    unfolding placeholderChars_def using decimal_digits [of c i] by blast
qed

lemma set_setLiteralsFrom:
  "set (setLiteralsFrom i t ls) \<subseteq> set t \<union> placeholderChars"
proof (induction ls arbitrary: i t)
  case Nil
  then show ?case by simp
next
  case (Cons l ls)
  have "set (replaceFirst (patternText l) (placeholder i) t) \<subseteq> set t \<union> placeholderChars"
    using set_replaceFirstFrom [of "[]" "patternText l" "placeholder i" t] set_placeholder [of i]
    by (auto simp: replaceFirst_def)
  with Cons.IH [of "Suc i" "replaceFirst (patternText l) (placeholder i) t"]
  show ?case by auto
qed

lemma set_escapeDollar: "set (escapeDollar l) \<subseteq> set l \<union> {0x24}"
  by (induction l) (auto simp: escapeDollar_Cons)

lemma set_getLiteralsFrom:
  "c \<in> set (getLiteralsFrom i t ls) \<Longrightarrow>
   c \<in> set t \<or> c = 0x24 \<or> (\<exists>l \<in> set ls. c \<in> set (literalText l))"
proof (induction ls arbitrary: i t)
  case Nil
  then show ?case by simp
next
  case (Cons l ls)
  from Cons.prems have "c \<in> set (getLiteralsFrom (Suc i)
      (replaceFirst (placeholder i) (escapeDollar (literalText l)) t) ls)"
    by simp
  from Cons.IH [OF this] show ?case
    using set_replaceFirstFrom [of "[]" "placeholder i" "escapeDollar (literalText l)" t]
      set_escapeDollar [of "literalText l"]
    by (auto simp: replaceFirst_def)
qed

lemma set_escapeLiterals:
  assumes "l \<in> set (escapeLiterals t)"
  shows "set (literalText l) \<subseteq> set t"
proof -
  have pt: "\<And>u x r. keeping templateAt u = Some (x, r) \<Longrightarrow> set x \<subseteq> set u"
    by (auto simp: keeping_def templateAt_def dest!: spanAt_prefix set_mono_prefix)
  have pq: "\<And>u x r. keeping quotedAt u = Some (x, r) \<Longrightarrow> set x \<subseteq> set u"
    by (auto simp: keeping_def quotedAt_def split: option.splits dest!: spanAt_prefix set_mono_prefix)
  have del: "set (greplace (deleting templateAt) t) \<subseteq> set t"
    using set_greplace [of "deleting templateAt" "{}" t] by (auto simp: deleting_def)
  from assms consider
      (n) "l = None"
    | (t) x where "l = Some x" "x \<in> set (gmatch (keeping templateAt) t)"
    | (q) x where "l = Some x" "x \<in> set (gmatch (keeping quotedAt) (greplace (deleting templateAt) t))"
    by (auto simp: escapeLiterals_def jsMatch_def split: list.splits)
  then show ?thesis
  proof cases
    case n
    then show ?thesis by (simp add: literalText_def)
  next
    case t
    with set_gmatch [of "keeping templateAt" x t] pt show ?thesis
      by (simp add: literalText_def)
  next
    case q
    with set_gmatch [of "keeping quotedAt" x "greplace (deleting templateAt) t"] pq del
    show ?thesis by (auto simp: literalText_def)
  qed
qed

lemma set_escapeInRegexRule:
  assumes "escapeInRegexRule q mk t = Some (x, r)"
  shows "set r \<subseteq> set t \<union> {0x24, 0x31, 0x32, mk}"
proof -
  from assms obtain p1q p2 where p: "spanAt (str ''/'') (notChar 0x2F) [q] t = Some p1q"
      "lazyUntil (notChar 0x2F) (str ''/'') (drop (length p1q) t) = Some p2"
      "r = getSubstitution (p1q @ p2) [] [] [butlast p1q, p2] ((str ''$1'') @ [mk] @ (str ''$2''))"
    by (auto simp: escapeInRegexRule_def split: option.splits)
  have 1: "set p1q \<subseteq> set t" using p(1) by (auto dest!: spanAt_prefix set_mono_prefix)
  have 2: "set p2 \<subseteq> set t"
    using p(2) set_drop_subset [of "length p1q" t] by (auto dest!: lazyUntil_prefix set_mono_prefix)
  have 3: "set (butlast p1q) \<subseteq> set p1q" by (auto dest: in_set_butlastD)
  from set_getSubstitution [of "p1q @ p2" "[]" "[]" "[butlast p1q, p2]" "(str ''$1'') @ [mk] @ (str ''$2'')"]
  have "set r \<subseteq> set (p1q @ p2) \<union> set (butlast p1q) \<union> set p2 \<union> set ((str ''$1'') @ [mk] @ (str ''$2''))"
    unfolding p(3) by auto
  with 1 2 3 show ?thesis by auto
qed

lemma set_escapeRegexQuotes:
  "set (escapeRegexQuotes t) \<subseteq> set t \<union> {0x24, 0x31, 0x32} \<union> markers"
proof -
  have g: "set (greplace (escapeInRegexRule q mk) u) \<subseteq> set u \<union> {0x24, 0x31, 0x32, mk}" for q mk u
    by (rule set_greplace_rule) (rule set_escapeInRegexRule)
  have "set (escapeBacktickInRegexPattern (escapeAposInRegexPattern (escapeQuotInRegexPattern t)))
      \<subseteq> set t \<union> {0x24, 0x31, 0x32} \<union> {0x0E, 0x0F, 0x10}"
    unfolding escapeBacktickInRegexPattern_def escapeAposInRegexPattern_def escapeQuotInRegexPattern_def
    using g [of "0x22" "0x0E" t]
      g [of "0x27" "0x0F" "greplace (escapeInRegexRule 0x22 0x0E) t"]
      g [of "0x60" "0x10" "greplace (escapeInRegexRule 0x27 0x0F)
            (greplace (escapeInRegexRule 0x22 0x0E) t)"]
    by blast
  then show ?thesis by (simp add: escapeRegexQuotes_def markers_def)
qed

lemma symbolAt_Some: "symbolAt t = Some p \<Longrightarrow> prefix p t \<and> p \<noteq> []"
proof -
  assume "symbolAt t = Some p"
  then have "startsWith t p" "p \<in> set symbols"
    unfolding symbolAt_def by (auto simp: find_Some_iff)
  moreover have "[] \<notin> set symbols" by (simp add: symbols_def)
  ultimately show ?thesis by (auto simp: startsWith_iff)
qed

lemma removeSpaceRule_cases:
  assumes "removeSpaceRule t = Some (x, r)"
  shows "(\<exists>p1. symbolAt t = Some p1 \<and> takeWhile isWhiteSpace (drop (length p1) t) \<noteq> [] \<and>
            x = p1 @ takeWhile isWhiteSpace (drop (length p1) t) \<and> r = p1) \<or>
         (takeWhile isWhiteSpace t \<noteq> [] \<and>
            (\<exists>p2. symbolAt (dropWhile isWhiteSpace t) = Some p2 \<and>
               x = takeWhile isWhiteSpace t @ p2 \<and> r = p2)) \<or>
         (takeWhile isWhiteSpace t \<noteq> [] \<and> x = takeWhile isWhiteSpace t \<and> r = (str '' ''))"
proof (cases "symbolAt t")
  case None
  show ?thesis
  proof (cases "symbolAt (dropWhile isWhiteSpace t)")
    case None
    with assms \<open>symbolAt t = None\<close> show ?thesis
      by (auto simp add: removeSpaceRule_def split: if_splits)
  next
    case (Some p2)
    with assms \<open>symbolAt t = None\<close> show ?thesis
      by (auto simp add: removeSpaceRule_def split: if_splits)
  qed
next
  case (Some p1)
  show ?thesis
  proof (cases "takeWhile isWhiteSpace (drop (length p1) t) = []")
    case False
    with assms Some show ?thesis by (auto simp add: removeSpaceRule_def)
  next
    case True
    show ?thesis
    proof (cases "symbolAt (dropWhile isWhiteSpace t)")
      case None
      with assms Some True show ?thesis
        by (auto simp add: removeSpaceRule_def split: if_splits)
    next
      case (Some p2)
      with assms \<open>symbolAt t = Some p1\<close> True show ?thesis
        by (auto simp add: removeSpaceRule_def split: if_splits)
    qed
  qed
qed

lemma removeSpaceRule_Some:
  assumes "removeSpaceRule t = Some (x, r)"
  shows "prefix x t \<and> x \<noteq> [] \<and> set r \<subseteq> set t \<union> {0x20}"
proof -
  have td: "t = takeWhile isWhiteSpace t @ dropWhile isWhiteSpace t" by simp
  from removeSpaceRule_cases [OF assms] consider
      (a) p1 where "symbolAt t = Some p1" "takeWhile isWhiteSpace (drop (length p1) t) \<noteq> []"
          "x = p1 @ takeWhile isWhiteSpace (drop (length p1) t)" "r = p1"
    | (b) p2 where "takeWhile isWhiteSpace t \<noteq> []" "symbolAt (dropWhile isWhiteSpace t) = Some p2"
          "x = takeWhile isWhiteSpace t @ p2" "r = p2"
    | (c) "takeWhile isWhiteSpace t \<noteq> []" "x = takeWhile isWhiteSpace t" "r = (str '' '')"
    by blast
  then show ?thesis
  proof cases
    case a
    from symbolAt_Some [OF a(1)] obtain u where u: "t = p1 @ u" "p1 \<noteq> []" by (auto simp: prefix_def)
    have "u = takeWhile isWhiteSpace u @ dropWhile isWhiteSpace u" by simp
    with u have "t = (p1 @ takeWhile isWhiteSpace u) @ dropWhile isWhiteSpace u" by simp
    then have "prefix (p1 @ takeWhile isWhiteSpace u) t" by (rule prefixI)
    moreover have "set p1 \<subseteq> set t" using u by auto
    ultimately show ?thesis using a u by auto
  next
    case b
    from symbolAt_Some [OF b(2)] obtain u where u: "dropWhile isWhiteSpace t = p2 @ u" "p2 \<noteq> []"
      by (auto simp: prefix_def)
    with td have "t = (takeWhile isWhiteSpace t @ p2) @ u" by simp
    then have "prefix (takeWhile isWhiteSpace t @ p2) t" by (rule prefixI)
    moreover have "set p2 \<subseteq> set (dropWhile isWhiteSpace t)" using u by auto
    then have "set p2 \<subseteq> set t" using set_dropWhileD by fastforce
    ultimately show ?thesis using b by auto
  next
    case c
    have "prefix (takeWhile isWhiteSpace t) t" using td by (metis prefixI)
    with c show ?thesis by auto
  qed
qed

lemma set_removeSpace: "set (removeSpace t) \<subseteq> set t \<union> {0x20}"
  unfolding removeSpace_def
  by (rule set_greplace_rule) (use removeSpaceRule_Some in blast)

lemma set_restoreRegexQuotes:
  "set (restoreRegexQuotes t) \<subseteq> set t \<union> {0x22, 0x27, 0x60}"
proof -
  have r: "set (replaceChar a b u) \<subseteq> set u \<union> {b}" for a b u
    using set_replaceChar [of a b u] by auto
  show ?thesis
    unfolding restoreRegexQuotes_def restoreQuotInRegexPattern_def
      restoreAposInRegexPattern_def restoreBacktickInRegexPattern_def
    using r [of "0x10" "0x60" t]
      r [of "0x0F" "0x27" "replaceChar 0x10 0x60 t"]
      r [of "0x0E" "0x22" "replaceChar 0x0F 0x27 (replaceChar 0x10 0x60 t)"]
    by blast
qed

text \<open>The slash is brought in by no stage.\<close>

lemma minifiedCode_no_slash:
  assumes "0x2F \<notin> set s"
  shows "0x2F \<notin> set (minifiedCode s)"
proof -
  define t where "t = stripComments s"
  define ls where "ls = escapeLiterals t"
  have t: "0x2F \<notin> set t" using set_stripComments [of s] assms by (auto simp: t_def)
  have "0x2F \<notin> placeholderChars" by (simp add: placeholderChars_def isDigit_def)
  then have 1: "0x2F \<notin> set (setLiteralsToValiable t ls)"
    using set_setLiteralsFrom [of 0 t ls] t
    by (auto simp: setLiteralsToValiable_def)
  have 2: "0x2F \<notin> set (escapeRegexQuotes (setLiteralsToValiable t ls))"
    using set_escapeRegexQuotes [of "setLiteralsToValiable t ls"] 1 by (auto simp: markers_def)
  have 3: "0x2F \<notin> set (removeSpace (escapeRegexQuotes (setLiteralsToValiable t ls)))"
    using set_removeSpace [of "escapeRegexQuotes (setLiteralsToValiable t ls)"] 2 by auto
  have 4: "0x2F \<notin> set (getLiteralsFromValiable
      (removeSpace (escapeRegexQuotes (setLiteralsToValiable t ls))) ls)"
    using set_getLiteralsFrom [of "0x2F" 0
        "removeSpace (escapeRegexQuotes (setLiteralsToValiable t ls))" ls] 3
      set_escapeLiterals [of _ t] t
    by (auto simp: getLiteralsFromValiable_def ls_def)
  have 5: "0x2F \<notin> set (restoreRegexQuotes (getLiteralsFromValiable
      (removeSpace (escapeRegexQuotes (setLiteralsToValiable t ls))) ls))"
    using set_restoreRegexQuotes 4 by fastforce
  have "0x2F \<notin> set (trimScriptOpen (restoreRegexQuotes (getLiteralsFromValiable
      (removeSpace (escapeRegexQuotes (setLiteralsToValiable t ls))) ls)))"
    using set_trimScriptOpen 5 by fastforce
  then show ?thesis by (simp add: minifiedCode_def Let_def t_def ls_def)
qed

section \<open>Reading a text as gaps and literals\<close>

lemma openIn_suffix: "openIn D g rest \<Longrightarrow> suffix t g \<Longrightarrow> openIn D t rest"
  by (induction g) (auto simp: suffix_Cons)

lemma openIn_hd:
  "openIn D g rest \<Longrightarrow> suffix (c # cs) g \<Longrightarrow> c \<in> D \<Longrightarrow> c \<notin> set (cs @ rest)"
  using openIn_suffix [of D g rest "c # cs"] by auto

lemma lazyUntil_no_closer: "z \<notin> set r \<Longrightarrow> lazyUntil ok [z] r = None"
  by (induction r) auto

lemma spanAt_no_closer: "z \<notin> set r \<Longrightarrow> spanAt [q] ok [z] (c # r) = None"
  by (simp add: spanAt_def lazyUntil_no_closer)

lemma templateAt_open:
  assumes "openIn {0x60} g rest" "t \<noteq> []" "suffix t g"
  shows "templateAt (t @ rest) = None"
proof -
  from assms(2) obtain c cs where t: "t = c # cs" by (cases t) auto
  show ?thesis
  proof (cases "c = 0x60")
    case True
    with openIn_hd [OF assms(1)] assms(3) t have "0x60 \<notin> set (cs @ rest)" by blast
    then show ?thesis unfolding t templateAt_def by (simp add: spanAt_no_closer)
  next
    case False
    then show ?thesis unfolding t by (simp add: templateAt_def spanAt_def)
  qed
qed

lemma quotedAt_open:
  assumes "openIn {0x22, 0x27} g rest" "t \<noteq> []" "suffix t g"
  shows "quotedAt (t @ rest) = None"
proof -
  from assms(2) obtain c cs where t: "t = c # cs" by (cases t) auto
  have a: "c = 0x22 \<Longrightarrow> 0x22 \<notin> set (cs @ rest)" and b: "c = 0x27 \<Longrightarrow> 0x27 \<notin> set (cs @ rest)"
    using openIn_hd [OF assms(1)] assms(3) t by blast+
  have "spanAt [0x22] (notChar 0x22) [0x22] (c # cs @ rest) = None"
  proof (cases "c = 0x22")
    case True
    with a show ?thesis by (simp add: spanAt_no_closer)
  next
    case False
    then show ?thesis by (simp add: spanAt_def)
  qed
  moreover have "spanAt [0x27] (notChar 0x27) [0x27] (c # cs @ rest) = None"
  proof (cases "c = 0x27")
    case True
    with b show ?thesis by (simp add: spanAt_no_closer)
  next
    case False
    then show ?thesis by (simp add: spanAt_def)
  qed
  ultimately show ?thesis unfolding t by (simp add: quotedAt_def)
qed

lemma delimitedBy_shape: "delimitedBy q t \<Longrightarrow> \<exists>body. t = q # body @ [q] \<and> q \<notin> set body"
proof -
  assume d: "delimitedBy q t"
  then obtain u where u: "t = q # u" "u \<noteq> []" by (cases t; cases "tl t") (auto simp: delimitedBy_def)
  with d have "last u = q" "q \<notin> set (butlast u)" by (auto simp: delimitedBy_def)
  with u have "t = q # butlast u @ [q]" by (metis append_butlast_last_id)
  with \<open>q \<notin> set (butlast u)\<close> show ?thesis by blast
qed

lemma spanAt_literal:
  "q \<notin> set body \<Longrightarrow> spanAt [q] (notChar q) [q] ((q # body @ [q]) @ rest) = Some (q # body @ [q])"
  using spanAt_first [of body "notChar q" q "[]" "[q]" rest] by (auto simp: notChar_def)

lemma templateAt_delimited: "delimitedBy 0x60 t \<Longrightarrow> templateAt (t @ rest) = Some t"
  by (auto dest!: delimitedBy_shape simp: templateAt_def spanAt_literal simp del: append.simps)

lemma quotedAt_delimited:
  assumes "delimitedBy 0x22 t \<or> delimitedBy 0x27 t"
  shows "quotedAt (t @ rest) = Some t"
proof -
  from assms show ?thesis
  proof
    assume "delimitedBy 0x22 t"
    then show ?thesis
      by (auto dest!: delimitedBy_shape simp: quotedAt_def spanAt_literal simp del: append.simps)
  next
    assume "delimitedBy 0x27 t"
    then obtain body where t: "t = 0x27 # body @ [0x27]" "0x27 \<notin> set body"
      by (auto dest!: delimitedBy_shape)
    have "spanAt [0x22] (notChar 0x22) [0x22] (t @ rest) = None"
      unfolding t by (simp add: spanAt_def)
    moreover have "spanAt [0x27] (notChar 0x27) [0x27] (t @ rest) = Some t"
      unfolding t using t(2) by (rule spanAt_literal)
    ultimately show ?thesis by (simp add: quotedAt_def)
  qed
qed

text \<open>A scan over gaps and literals finds the literals.\<close>

lemma scan_finds:
  assumes inert: "\<And>g rest t. openIn D g rest \<Longrightarrow> t \<noteq> [] \<Longrightarrow> suffix t g \<Longrightarrow> f (t @ rest) = None"
    and hit: "\<And>x rest. P x \<Longrightarrow> f (x @ rest) = Some x \<and> x \<noteq> []"
  shows "length gaps = Suc (length xs) \<Longrightarrow> \<forall>x \<in> set xs. P x \<Longrightarrow> gapsOpen D gaps xs \<Longrightarrow>
         gmatch (keeping f) (weave gaps xs) = xs \<and>
         greplace (deleting f) (weave gaps xs) = concat gaps"
proof (induction gaps xs rule: weave.induct)
  case (1 xs)
  then show ?case by simp
next
  case (2 g gs)
  from "2.prems"(1) have gs: "gs = []" by simp
  from "2.prems"(3) gs have o: "openIn D g []" by simp
  have "gmatch (keeping f) (g @ []) = gmatch (keeping f) []"
    by (rule gmatch_inert) (use inert [OF o] in \<open>simp add: keeping_def\<close>)
  moreover have "greplace (deleting f) (g @ []) = g @ greplace (deleting f) []"
    by (rule greplace_inert) (use inert [OF o] in \<open>simp add: deleting_def\<close>)
  ultimately show ?case using gs by simp
next
  case (3 g gs x xs)
  let ?rest = "weave gs xs"
  from "3.prems"(3) have o: "openIn D g (x @ ?rest)" and go: "gapsOpen D gs xs" by simp_all
  from "3.prems"(2) have px: "P x" and pxs: "\<forall>x \<in> set xs. P x" by simp_all
  from "3.prems"(1) have len: "length gs = Suc (length xs)" by simp
  note ih = "3.IH" [OF len pxs go]
  have fx: "f (x @ ?rest) = Some x" "x \<noteq> []" using hit [OF px] by simp_all
  have "gmatch (keeping f) (g @ x @ ?rest) = gmatch (keeping f) (x @ ?rest)"
    by (rule gmatch_inert) (use inert [OF o] in \<open>simp add: keeping_def\<close>)
  also have "\<dots> = x # gmatch (keeping f) ?rest"
    by (rule gmatch_match) (simp_all add: keeping_def fx)
  finally have 1: "gmatch (keeping f) (weave (g # gs) (x # xs)) = x # xs" using ih by simp
  have "greplace (deleting f) (g @ x @ ?rest) = g @ greplace (deleting f) (x @ ?rest)"
    by (rule greplace_inert) (use inert [OF o] in \<open>simp add: deleting_def\<close>)
  also have "greplace (deleting f) (x @ ?rest) = [] @ greplace (deleting f) ?rest"
    by (rule greplace_match) (simp_all add: deleting_def fx)
  finally have 2: "greplace (deleting f) (weave (g # gs) (x # xs)) = concat (g # gs)"
    using ih by simp
  from 1 2 show ?case by simp
qed

lemma templates_found:
  assumes "length gaps = Suc (length ts)" "\<forall>t \<in> set ts. delimitedBy 0x60 t" "gapsOpen {0x60} gaps ts"
  shows "gmatch (keeping templateAt) (weave gaps ts) = ts"
    and "greplace (deleting templateAt) (weave gaps ts) = concat gaps"
proof -
  have "gmatch (keeping templateAt) (weave gaps ts) = ts \<and>
      greplace (deleting templateAt) (weave gaps ts) = concat gaps"
  proof (rule scan_finds [where P = "delimitedBy 0x60" and D = "{0x60}"])
    fix g rest t assume "openIn {0x60} g rest" "t \<noteq> []" "suffix t g"
    then show "templateAt (t @ rest) = None" by (rule templateAt_open)
  next
    fix x rest assume "delimitedBy 0x60 x"
    then show "templateAt (x @ rest) = Some x \<and> x \<noteq> []"
      by (auto simp: templateAt_delimited delimitedBy_def)
  qed (use assms in auto)
  then show "gmatch (keeping templateAt) (weave gaps ts) = ts"
    and "greplace (deleting templateAt) (weave gaps ts) = concat gaps" by simp_all
qed

lemma quoted_found:
  assumes "length gaps = Suc (length qs)" "\<forall>q \<in> set qs. delimitedBy 0x22 q \<or> delimitedBy 0x27 q"
    "gapsOpen {0x22, 0x27} gaps qs"
  shows "gmatch (keeping quotedAt) (weave gaps qs) = qs"
proof -
  have "gmatch (keeping quotedAt) (weave gaps qs) = qs \<and>
      greplace (deleting quotedAt) (weave gaps qs) = concat gaps"
  proof (rule scan_finds [where P = "\<lambda>q. delimitedBy 0x22 q \<or> delimitedBy 0x27 q" and D = "{0x22, 0x27}"])
    fix g rest t assume "openIn {0x22, 0x27} g rest" "t \<noteq> []" "suffix t g"
    then show "quotedAt (t @ rest) = None" by (rule quotedAt_open)
  next
    fix x rest assume "delimitedBy 0x22 x \<or> delimitedBy 0x27 x"
    then show "quotedAt (x @ rest) = Some x \<and> x \<noteq> []"
      by (auto simp: quotedAt_delimited delimitedBy_def)
  qed (use assms in auto)
  then show ?thesis by simp
qed

text \<open>Every text can be read as gaps and literals.\<close>

lemma gapsOpen_Cons:
  "gapsOpen D (g # gs) xs \<Longrightarrow> length (g # gs) = Suc (length xs) \<Longrightarrow>
   (c \<in> D \<longrightarrow> c \<notin> set (weave (g # gs) xs)) \<Longrightarrow> gapsOpen D ((c # g) # gs) xs"
  by (cases xs) auto

lemma reading_exists:
  assumes miss: "\<And>c r. f (c # r) = None \<Longrightarrow> c \<in> D \<Longrightarrow> c \<notin> set r"
    and hit: "\<And>t x. f t = Some x \<Longrightarrow> prefix x t \<and> x \<noteq> [] \<and> P x"
  shows "\<exists>gaps xs. length gaps = Suc (length xs) \<and> s = weave gaps xs \<and>
           (\<forall>x \<in> set xs. P x) \<and> gapsOpen D gaps xs"
proof (induction s rule: length_induct)
  case (1 s)
  show ?case
  proof (cases s)
    case Nil
    then show ?thesis by (intro exI [of _ "[[]]"] exI [of _ "[]"]) simp
  next
    case (Cons c cs)
    show ?thesis
    proof (cases "f s")
      case None
      from 1 Cons obtain gaps xs where g: "length gaps = Suc (length xs)" "cs = weave gaps xs"
        "\<forall>x \<in> set xs. P x" "gapsOpen D gaps xs"
        by auto
      then obtain g gs where gg: "gaps = g # gs" by (cases gaps) auto
      have w: "c # weave (g # gs) xs = weave ((c # g) # gs) xs" by (cases xs) auto
      have "c \<in> D \<longrightarrow> c \<notin> set cs" using miss None Cons by blast
      with g gg have "gapsOpen D ((c # g) # gs) xs" by (intro gapsOpen_Cons) auto
      with g gg w Cons show ?thesis
        by (intro exI [of _ "(c # g) # gs"] exI [of _ xs]) simp
    next
      case (Some x)
      from hit [OF Some] obtain r where x: "s = x @ r" "x \<noteq> []" "P x" by (auto simp: prefix_def)
      then have "length r < length s" by simp
      with 1 obtain gaps xs where g: "length gaps = Suc (length xs)" "r = weave gaps xs"
        "\<forall>x \<in> set xs. P x" "gapsOpen D gaps xs"
        by blast
      with x show ?thesis
        by (intro exI [of _ "[] # gaps"] exI [of _ "x # xs"]) simp
    qed
  qed
qed

lemma lazyUntil_closer:
  "z \<in> set r \<Longrightarrow> lazyUntil (notChar z) [z] r \<noteq> None"
  by (induction r) (auto simp: notChar_def)

lemma spanAt_miss:
  "spanAt [q] (notChar q) [q] (c # r) = None \<Longrightarrow> c = q \<Longrightarrow> q \<notin> set r"
  using lazyUntil_closer [of q r] by (auto simp: spanAt_def)

lemma template_reading_exists:
  "\<exists>gaps ts. length gaps = Suc (length ts) \<and> s = weave gaps ts \<and>
     (\<forall>t \<in> set ts. delimitedBy 0x60 t) \<and> gapsOpen {0x60} gaps ts"
proof (rule reading_exists [where f = templateAt])
  fix c r assume "templateAt (c # r) = None" "c \<in> {0x60}"
  then show "c \<notin> set r" using spanAt_miss [of "0x60" c r] by (simp add: templateAt_def)
next
  fix t x assume "templateAt t = Some x"
  then show "prefix x t \<and> x \<noteq> [] \<and> delimitedBy 0x60 x"
    by (auto simp: templateAt_def dest: spanAt_prefix spanAt_nonempty spanAt_delimited)
qed

lemma quoted_reading_exists:
  "\<exists>gaps qs. length gaps = Suc (length qs) \<and> s = weave gaps qs \<and>
     (\<forall>q \<in> set qs. delimitedBy 0x22 q \<or> delimitedBy 0x27 q) \<and> gapsOpen {0x22, 0x27} gaps qs"
proof (rule reading_exists [where f = quotedAt])
  fix c r assume a: "quotedAt (c # r) = None" "c \<in> {0x22, 0x27}"
  then have "spanAt [0x22] (notChar 0x22) [0x22] (c # r) = None"
    "spanAt [0x27] (notChar 0x27) [0x27] (c # r) = None"
    by (auto simp: quotedAt_def split: option.splits)
  with a(2) show "c \<notin> set r" using spanAt_miss [of "0x22" c r] spanAt_miss [of "0x27" c r] by auto
next
  fix t x assume "quotedAt t = Some x"
  then show "prefix x t \<and> x \<noteq> [] \<and> (delimitedBy 0x22 x \<or> delimitedBy 0x27 x)"
    by (auto simp: quotedAt_def split: option.splits
        dest: spanAt_prefix spanAt_nonempty spanAt_delimited)
qed

lemma literals_of_reading:
  assumes "literalReading arg gaps ts gaps' qs" and "qs \<noteq> []"
  shows "escapeLiterals arg = map Some ts @ map Some qs"
proof -
  from assms(1) have r: "length gaps = Suc (length ts)" "arg = weave gaps ts"
    "\<forall>t \<in> set ts. delimitedBy 0x60 t" "gapsOpen {0x60} gaps ts"
    "length gaps' = Suc (length qs)" "concat gaps = weave gaps' qs"
    "\<forall>q \<in> set qs. delimitedBy 0x22 q \<or> delimitedBy 0x27 q" "gapsOpen {0x22, 0x27} gaps' qs"
    by (simp_all add: literalReading_def)
  have t: "gmatch (keeping templateAt) arg = ts" "greplace (deleting templateAt) arg = concat gaps"
    unfolding r(2) using r(1,3,4) by (rule templates_found)+
  have q: "gmatch (keeping quotedAt) (concat gaps) = qs"
    unfolding r(6) using r(5,7,8) by (rule quoted_found)
  show ?thesis
    using assms(2) by (cases ts; cases qs) (simp_all add: escapeLiterals_def jsMatch_def t q)
qed

section \<open>C2: white space next to a structural symbol\<close>

text \<open>
  Claim C2. After removeSpace no white space is left next to a structural symbol
  (parenthesis, brace, bracket, plus, minus, equals, angle bracket, colon, semicolon,
  comma), and every other run of white space is one space. The code does not do this at
  two inputs, evaluated here. In \<open>a = b\<close> the second alternative of the expression takes
  the space before the equals sign together with the sign, so the scan resumes behind the
  sign and the space after it is an ordinary run, replaced by one space. In \<open>a < b\<close> the
  angle bracket is no symbol at all, because the source lists the texts \<open>u003C\<close> and
  \<open>u003E\<close> where it means the escapes.
\<close>

theorem removeSpace_keeps_space:
  "removeSpace (str ''a = b'') = (str ''a= b'') \<and> removeSpace (str ''a < b'') = (str ''a < b'')"
  by code_simp

section \<open>C3: a second pass\<close>

text \<open>
  Claim C3. minifyJsCode applied to its own output gives that output again. At the input
  \<open>a = b\<close> the first pass leaves the space after the equals sign (the defect of
  removeSpace above) and the second pass removes it.
\<close>

theorem minifyJsCode_second_pass_differs:
  "minifyJsCode (str ''a = b'') False = (str ''a= b'') \<and>
   minifyJsCode (minifyJsCode (str ''a = b'') False) False = (str ''a=b'')"
  by code_simp

section \<open>C5: the document around the script regions\<close>

text \<open>
  Claim C5. The output of minifyJsInHtml is the input document with each script body
  replaced by its minified form, and every character outside the script bodies is as it
  was. The loop hands each region to minifyJsCode together with its two tags, and the
  expression that removes a comment after two slashes runs to the end of the line: when
  the closing tag stands on the line of such a comment it is removed with the comment. In
  this document with one script region the closing tag is lost.
\<close>

theorem closing_tag_removed_with_comment:
  "embedMinified (str ''<p>x</p><script>a = 1; // done</script><p>y</p>'') =
     str ''<p>x</p><script>a= 1;<p>y</p>'' \<and>
   minifyJsCode (str ''<script>a = 1; // done</script>'') True = str ''<script>a= 1;''"
  by code_simp

text \<open>The same in a document with two script regions, as a call of the method.\<close>

lemma closing_tag_removed_in_call:
  "callMinifyJsInHtml (\<lambda>t m. Inr (str ''blob:1''))
       (JString (str ''<i>x</i><script>f(); // one</script><b>y</b><script> g();</script>''))
       \<lparr>minificationLogs = [], logEnabled = False\<rparr> [] =
     (Return (JString (str ''<i>x</i><script>f();<b>y</b><script>g();</script>'')),
      \<lparr>minificationLogs = [], logEnabled = False\<rparr>, [])"
proof -
  have "embedMinified (str ''<i>x</i><script>f(); // one</script><b>y</b><script> g();</script>'') =
      str ''<i>x</i><script>f();<b>y</b><script>g();</script>''"
    by code_simp
  then show ?thesis
    by (simp add: callMinifyJsInHtml_def tryMinifyJsInHtml_def logAndReturn_def clearLog_def
        toStringJS_def isLowSurrogate_def isHighSurrogate_def)
qed

section \<open>C6: where the preserved comments go\<close>

text \<open>
  Claim C6. In embedded mode the preserved comments are spliced immediately after the
  opening script tag, so that the fragment begins with the tag immediately followed by the
  comments; otherwise they are joined by newlines and put before the minified code. For
  the scenario of the specification the fragment does not begin with the tag immediately
  followed by the comment: the replacement text of the source is the tag, a newline, the
  comments joined by newlines, and a newline.
\<close>

theorem comments_spliced_after_newline:
  "minifyJsCode (str ''<script>/*! keep */ function f(){}</script>'') True =
     (str ''<script>'') @ [0x0A] @ (str ''/*! keep */'') @ [0x0A] @ (str ''function f(){}</script>'') \<and>
   \<not> startsWith (minifyJsCode (str ''<script>/*! keep */ function f(){}</script>'') True)
       (str ''<script>/*! keep */'')"
  by code_simp

text \<open>
  Claim C6 as amended. When the input has preserved comments: with isEmbed false the
  output is the comments joined by newlines, a newline, and the minified code; with
  isEmbed true, for an input that begins with the tag \<open><script>\<close> and comments without
  a dollar sign, the minified code begins with that tag and the output is the tag, a
  newline, the comments joined by newlines, a newline, and the rest of the minified code.
\<close>

theorem preserved_comments_attached:
  "(preserveComment inputJsCode = Some cs \<longrightarrow>
      minifyJsCode inputJsCode False = joinWith [0x0A] cs @ [0x0A] @ minifiedCode inputJsCode) \<and>
   (preserveComment inputJsCode = Some cs \<and> prefix (str ''<script>'') inputJsCode \<and>
    0x24 \<notin> \<Union> (set ` set cs) \<longrightarrow>
      (\<exists>code. minifiedCode inputJsCode = (str ''<script>'') @ code \<and>
         minifyJsCode inputJsCode True =
           (str ''<script>'') @ [0x0A] @ joinWith [0x0A] cs @ [0x0A] @ code))"
proof (intro conjI impI)
  assume "preserveComment inputJsCode = Some cs"
  then show "minifyJsCode inputJsCode False =
      joinWith [0x0A] cs @ [0x0A] @ minifiedCode inputJsCode"
    by (simp add: minifyJsCode_unfold concatComments_def)
next
  assume a: "preserveComment inputJsCode = Some cs \<and> prefix (str ''<script>'') inputJsCode \<and>
    0x24 \<notin> \<Union> (set ` set cs)"
  then obtain r where r: "inputJsCode = (str ''<script>'') @ r" by (auto simp: prefix_def)
  from minifiedCode_script [of r] r obtain code where
    code: "minifiedCode inputJsCode = (str ''<script>'') @ code" by auto
  define J where "J = joinWith [0x0A] cs @ [0x0A]"
  have "0x24 \<notin> set J"
    using a set_joinWith [of "[0x0A]" cs] by (auto simp: J_def)
  then have J: "getSubstitution m bf af caps (0x0A # J) = 0x0A # J" for m bf af caps
    by (intro getSubstitution_plain) auto
  have "getSubstitution (str ''<script>'') [] code [(str ''<script>'')] ((str ''$1'') @ [0x0A] @ J) =
      (str ''<script>'') @ [0x0A] @ J"
    using getSubstitution_first_capture [of "0x0A" "(str ''<script>'')" "[]" code "(str ''<script>'')" J] J
    by (simp add: isDigit_def)
  then have "spliceComennts ((str ''<script>'') @ code) (Some cs) = (str ''<script>'') @ [0x0A] @ J @ code"
    by (simp add: spliceComennts_def scriptOpenAt_script J_def
        del: str_def append.simps getSubstitution.simps)
  with a code show "\<exists>code. minifiedCode inputJsCode = (str ''<script>'') @ code \<and>
         minifyJsCode inputJsCode True =
           (str ''<script>'') @ [0x0A] @ joinWith [0x0A] cs @ [0x0A] @ code"
    by (auto simp: minifyJsCode_unfold J_def)
qed

text \<open>The scenario of the specification satisfies the hypotheses of both parts.\<close>

theorem preserved_comments_attached_witness:
  "preserveComment (str ''<script>/*! keep */ function f(){}</script>'') = Some [(str ''/*! keep */'')] \<and>
   prefix (str ''<script>'') (str ''<script>/*! keep */ function f(){}</script>'') \<and>
   0x24 \<notin> \<Union> (set ` set [(str ''/*! keep */'')]) \<and>
   minifyJsCode (str ''<script>/*! keep */ function f(){}</script>'') False =
     joinWith [0x0A] [(str ''/*! keep */'')] @ [0x0A] @ minifiedCode (str ''<script>/*! keep */ function f(){}</script>'') \<and>
   (\<exists>code. minifiedCode (str ''<script>/*! keep */ function f(){}</script>'') = (str ''<script>'') @ code \<and>
      minifyJsCode (str ''<script>/*! keep */ function f(){}</script>'') True =
        (str ''<script>'') @ [0x0A] @ joinWith [0x0A] [(str ''/*! keep */'')] @ [0x0A] @ code)"
proof -
  have p: "preserveComment (str ''<script>/*! keep */ function f(){}</script>'') = Some [(str ''/*! keep */'')]"
    by code_simp
  have q: "prefix (str ''<script>'') (str ''<script>/*! keep */ function f(){}</script>'')"
    by simp
  have d: "0x24 \<notin> \<Union> (set ` set [(str ''/*! keep */'')])"
    by simp
  show ?thesis
    using p q d
      preserved_comments_attached [of "(str ''<script>/*! keep */ function f(){}</script>'')" "[(str ''/*! keep */'')]"]
    by blast
qed

text \<open>
  An opening tag with an attribute is not matched by the expression of spliceComennts,
  and the preserved comment is then in no part of the output.
\<close>

lemma comments_lost_after_attribute:
  "minifyJsCode (str ''<script type=m>/*! keep */ f();</script>'') True = (str ''<script type=m> f();</script>'')"
  by code_simp

section \<open>C7: what happens to a failure\<close>

text \<open>
  Claim C7. A failure inside minifyJsCode, minifyJsFile or minifyJsInHtml is surfaced to
  the caller as a typed error. The code catches it instead: for the argument
  \<open>undefined\<close> the try block of minifyJsCode throws a \<open>TypeError\<close>, and the call returns
  \<open>undefined\<close> after writing the error to the console.
\<close>

theorem failure_not_surfaced:
  "tryMinifyJsCode JUndefined False = Inl TypeError \<and>
   callMinifyJsCode JUndefined False [] = (Return JUndefined, [TypeError])"
  by (simp add: tryMinifyJsCode_def callMinifyJsCode_def)

text \<open>
  Claim C7 as amended. No call of the three methods completes by throwing. When the try
  block of a method fails with an error, the call returns \<open>undefined\<close>, the error is
  appended to the console, and (for minifyJsFile and minifyJsInHtml) the instance is left
  as it was.
\<close>

theorem failures_are_caught:
  "fst (callMinifyJsCode v e con) \<noteq> Throw x \<and>
   fst (callMinifyJsFile h v this con) \<noteq> Throw x \<and>
   fst (callMinifyJsInHtml h v this con) \<noteq> Throw x \<and>
   (tryMinifyJsCode v e = Inl err \<longrightarrow>
      callMinifyJsCode v e con = (Return JUndefined, con @ [err])) \<and>
   (tryMinifyJsFile h v this con = (Inl err, con') \<longrightarrow>
      callMinifyJsFile h v this con = (Return JUndefined, this, con' @ [err])) \<and>
   (tryMinifyJsInHtml h v this con = (Inl err, con') \<longrightarrow>
      callMinifyJsInHtml h v this con = (Return JUndefined, this, con' @ [err]))"
proof -
  have 1: "fst (callMinifyJsCode v e con) \<noteq> Throw x"
    by (simp add: callMinifyJsCode_def split: sum.split)
  have 2: "fst (callMinifyJsFile h v this con) \<noteq> Throw x"
    by (simp add: callMinifyJsFile_def split: prod.split sum.split)
  have 3: "fst (callMinifyJsInHtml h v this con) \<noteq> Throw x"
    by (simp add: callMinifyJsInHtml_def split: prod.split sum.split)
  have 4: "tryMinifyJsCode v e = Inl err \<longrightarrow>
      callMinifyJsCode v e con = (Return JUndefined, con @ [err])"
    by (simp add: callMinifyJsCode_def)
  have 5: "tryMinifyJsFile h v this con = (Inl err, con') \<longrightarrow>
      callMinifyJsFile h v this con = (Return JUndefined, this, con' @ [err])"
    by (simp add: callMinifyJsFile_def)
  have 6: "tryMinifyJsInHtml h v this con = (Inl err, con') \<longrightarrow>
      callMinifyJsInHtml h v this con = (Return JUndefined, this, con' @ [err])"
    by (simp add: callMinifyJsInHtml_def)
  from 1 2 3 4 5 6 show ?thesis by blast
qed

text \<open>
  The three try blocks can fail: minifyJsCode on \<open>null\<close>, minifyJsFile on a text when the
  host cannot make a URL, minifyJsInHtml on \<open>undefined\<close>.
\<close>

theorem failures_are_caught_witness:
  "tryMinifyJsCode JNull True = Inl TypeError \<and>
   callMinifyJsCode JNull True [] = (Return JUndefined, [TypeError]) \<and>
   tryMinifyJsFile (\<lambda>t m. Inl HostError) (JString (str ''a = b''))
       \<lparr>minificationLogs = [], logEnabled = True\<rparr> [] = (Inl HostError, []) \<and>
   callMinifyJsFile (\<lambda>t m. Inl HostError) (JString (str ''a = b''))
       \<lparr>minificationLogs = [], logEnabled = True\<rparr> [] =
     (Return JUndefined, \<lparr>minificationLogs = [], logEnabled = True\<rparr>, [HostError]) \<and>
   tryMinifyJsInHtml (\<lambda>t m. Inr (str ''blob:1'')) JUndefined
       \<lparr>minificationLogs = [], logEnabled = True\<rparr> [] = (Inl TypeError, []) \<and>
   callMinifyJsInHtml (\<lambda>t m. Inr (str ''blob:1'')) JUndefined
       \<lparr>minificationLogs = [], logEnabled = True\<rparr> [] =
     (Return JUndefined, \<lparr>minificationLogs = [], logEnabled = True\<rparr>, [TypeError])"
proof -
  have a: "tryMinifyJsCode JNull True = Inl TypeError"
    by (simp add: tryMinifyJsCode_def)
  have b: "tryMinifyJsFile (\<lambda>t m. Inl HostError) (JString (str ''a = b''))
       \<lparr>minificationLogs = [], logEnabled = True\<rparr> [] = (Inl HostError, [])"
    by (simp add: tryMinifyJsFile_def callMinifyJsCode_def tryMinifyJsCode_def logAndReturn_def
        returned_def toStringJS_def isLowSurrogate_def isHighSurrogate_def)
  have c: "tryMinifyJsInHtml (\<lambda>t m. Inr (str ''blob:1'')) JUndefined
       \<lparr>minificationLogs = [], logEnabled = True\<rparr> [] = (Inl TypeError, [])"
    by (simp add: tryMinifyJsInHtml_def)
  show ?thesis
    using a b c
      failures_are_caught [where v = JNull and e = True and con = "[]" and err = TypeError]
      failures_are_caught [where h = "\<lambda>t m. Inl HostError" and v = "JString (str ''a = b'')"
        and this = "\<lparr>minificationLogs = [], logEnabled = True\<rparr>" and con = "[]"
        and err = HostError and con' = "[]"]
      failures_are_caught [where h = "\<lambda>t m. Inr (str ''blob:1'')" and v = JUndefined
        and this = "\<lparr>minificationLogs = [], logEnabled = True\<rparr>" and con = "[]"
        and err = TypeError and con' = "[]"]
    by simp
qed

section \<open>C8: the sequence of literals\<close>

text \<open>
  Claim C8. escapeLiterals returns the template literals of its argument in order of
  appearance, then the quoted literals matched on the argument with the template
  literals deleted, each element being a literal substring of the argument. The last part
  fails: a quoted literal is matched after the template literals have been deleted, so
  it can span the place of a deleted template literal and is then no substring of the
  argument. The argument here is a single-quoted text that holds a template literal.
\<close>

theorem escapeLiterals_not_substring:
  "escapeLiterals ([0x27] @ str ''a'' @ [0x60] @ str ''x'' @ [0x60] @ str ''b'' @ [0x27]) =
     [Some ([0x60] @ str ''x'' @ [0x60]), Some ([0x27] @ str ''ab'' @ [0x27])] \<and>
   \<not> sublist ([0x27] @ str ''ab'' @ [0x27])
       ([0x27] @ str ''a'' @ [0x60] @ str ''x'' @ [0x60] @ str ''b'' @ [0x27])"
  by code_simp

text \<open>
  Claim C8 as amended. Every argument can be read as gaps and template literals, each
  literal a backtick, a content without backtick and a backtick, the gaps holding no
  backtick that has another one after it; and the gaps joined together can be read in the
  same way as gaps and quoted literals, each literal delimited by one kind of quotation
  mark with none of that kind inside. For every such reading with at least one quoted
  literal, escapeLiterals returns the template literals in their order followed by the
  quoted literals in their order; each template literal is a substring of the argument,
  and each quoted literal a substring of the argument with the template literals deleted
  (not always of the argument). (When there is no quoted literal the source appends the
  result \<open>null\<close> of the second match as an element; the theorem says nothing of that
  case.)
\<close>

theorem escapeLiterals_sequence:
  "(\<exists>gaps ts gaps' qs. literalReading arg gaps ts gaps' qs) \<and>
   (\<forall>gaps ts gaps' qs. literalReading arg gaps ts gaps' qs \<and> qs \<noteq> [] \<longrightarrow>
      escapeLiterals arg = map Some ts @ map Some qs \<and>
      (\<forall>t \<in> set ts. sublist t arg) \<and> (\<forall>q \<in> set qs. sublist q (concat gaps)))"
proof (intro conjI allI impI)
  from template_reading_exists [of arg] obtain gaps ts where
    a: "length gaps = Suc (length ts)" "arg = weave gaps ts"
      "\<forall>t \<in> set ts. delimitedBy 0x60 t" "gapsOpen {0x60} gaps ts"
    by blast
  from quoted_reading_exists [of "concat gaps"] obtain gaps' qs where
    b: "length gaps' = Suc (length qs)" "concat gaps = weave gaps' qs"
      "\<forall>q \<in> set qs. delimitedBy 0x22 q \<or> delimitedBy 0x27 q" "gapsOpen {0x22, 0x27} gaps' qs"
    by blast
  from a b have "literalReading arg gaps ts gaps' qs" by (simp add: literalReading_def)
  then show "\<exists>gaps ts gaps' qs. literalReading arg gaps ts gaps' qs" by blast
next
  fix gaps ts gaps' qs
  assume a: "literalReading arg gaps ts gaps' qs \<and> qs \<noteq> []"
  then show "escapeLiterals arg = map Some ts @ map Some qs"
    using literals_of_reading by blast
  from a have r: "length gaps = Suc (length ts)" "arg = weave gaps ts"
    "length gaps' = Suc (length qs)" "concat gaps = weave gaps' qs"
    by (simp_all add: literalReading_def)
  show "\<forall>t \<in> set ts. sublist t arg"
    unfolding r(2) using weave_sublist [OF r(1)] by blast
  show "\<forall>q \<in> set qs. sublist q (concat gaps)"
    unfolding r(4) using weave_sublist [OF r(3)] by blast
qed

text \<open>
  A reading of an argument in which a quoted literal spans a deleted template literal and
  another holds a quotation mark of the other kind.
\<close>

theorem escapeLiterals_sequence_witness:
  "literalReading ([0x27] @ str ''a'' @ [0x60] @ str ''x'' @ [0x60] @ str ''b'' @ [0x27] @ str '' + '' @ [0x22] @ str ''it'' @ [0x27] @ str ''s'' @ [0x22])
     [[0x27] @ str ''a'', str ''b'' @ [0x27] @ str '' + '' @ [0x22] @ str ''it'' @ [0x27] @ str ''s'' @ [0x22]]
     [[0x60] @ str ''x'' @ [0x60]]
     [[], str '' + '', []]
     [[0x27] @ str ''ab'' @ [0x27], [0x22] @ str ''it'' @ [0x27] @ str ''s'' @ [0x22]] \<and>
   escapeLiterals ([0x27] @ str ''a'' @ [0x60] @ str ''x'' @ [0x60] @ str ''b'' @ [0x27] @ str '' + '' @ [0x22] @ str ''it'' @ [0x27] @ str ''s'' @ [0x22]) =
     [Some ([0x60] @ str ''x'' @ [0x60]), Some ([0x27] @ str ''ab'' @ [0x27]),
      Some ([0x22] @ str ''it'' @ [0x27] @ str ''s'' @ [0x22])]"
proof -
  have r: "literalReading ([0x27] @ str ''a'' @ [0x60] @ str ''x'' @ [0x60] @ str ''b'' @ [0x27] @ str '' + '' @ [0x22] @ str ''it'' @ [0x27] @ str ''s'' @ [0x22])
     [[0x27] @ str ''a'', str ''b'' @ [0x27] @ str '' + '' @ [0x22] @ str ''it'' @ [0x27] @ str ''s'' @ [0x22]]
     [[0x60] @ str ''x'' @ [0x60]]
     [[], str '' + '', []]
     [[0x27] @ str ''ab'' @ [0x27], [0x22] @ str ''it'' @ [0x27] @ str ''s'' @ [0x22]]"
    by (simp add: literalReading_def delimitedBy_def)
  from conjunct2 [OF escapeLiterals_sequence, rule_format, OF conjI, OF r]
  have "escapeLiterals ([0x27] @ str ''a'' @ [0x60] @ str ''x'' @ [0x60] @ str ''b'' @ [0x27] @ str '' + '' @ [0x22] @ str ''it'' @ [0x27] @ str ''s'' @ [0x22]) =
     map Some [[0x60] @ str ''x'' @ [0x60]] @
     map Some [[0x27] @ str ''ab'' @ [0x27], [0x22] @ str ''it'' @ [0x27] @ str ''s'' @ [0x22]]"
    by simp
  with r show ?thesis by simp
qed

text \<open>
  Without a quoted literal the sequence ends with \<open>null\<close>; setLiteralsToValiable then
  searches for the text \<open>null\<close>, and getLiteralsFromValiable puts the empty text in its
  place.
\<close>

lemma escapeLiterals_without_quoted:
  "escapeLiterals (str ''x = null;'') = [None] \<and> minifyJsCode (str ''x = null;'') False = str ''x= ;''"
  by code_simp

section \<open>C9: no control marker in the output\<close>

text \<open>
  Claim C9. For every input that contains none of the reserved control characters U+000E,
  U+000F and U+0010, the output of minifyJsCode (in either mode) contains none of them:
  the three restoration steps remove every marker the escaping steps introduced, and what
  is added afterwards (the script tag, the preserved comments taken from the input)
  brings none back.
\<close>

theorem minifyJsCode_no_markers:
  "set inputJsCode \<inter> markers = {} \<Longrightarrow>
   set (minifyJsCode inputJsCode isEmbed) \<inter> markers = {}"
proof -
  assume inp: "set inputJsCode \<inter> markers = {}"
  define t where "t = restoreRegexQuotes (getLiteralsFromValiable (removeSpace (escapeRegexQuotes
      (setLiteralsToValiable (stripComments inputJsCode) (escapeLiterals (stripComments inputJsCode)))))
      (escapeLiterals (stripComments inputJsCode)))"
  have t: "set t \<inter> markers = {}" unfolding t_def by (rule restoreRegexQuotes_clean)
  have tr: "set (trimScriptOpen t) \<inter> markers = {}"
    using set_trimScriptOpen[of t] t by (auto simp: markers_def)
  have cm: "(case preserveComment inputJsCode of None \<Rightarrow> {} | Some cs \<Rightarrow> \<Union> (set ` set cs)) \<inter> markers = {}"
    using preserveComment_sets[of inputJsCode] inp by (auto split: option.splits)
  have out: "minifyJsCode inputJsCode isEmbed =
      (if isEmbed then spliceComennts (trimScriptOpen t) (preserveComment inputJsCode)
       else concatComments (trimScriptOpen t) (preserveComment inputJsCode))"
    by (simp add: minifyJsCode_def Let_def t_def)
  show ?thesis
  proof (cases isEmbed)
    case True
    with out tr cm set_spliceComennts[of "trimScriptOpen t" "preserveComment inputJsCode"]
    show ?thesis by (auto simp: markers_def)
  next
    case False
    with out tr cm set_concatComments[of "trimScriptOpen t" "preserveComment inputJsCode"]
    show ?thesis by (auto simp: markers_def)
  qed
qed

text \<open>
  The hypothesis holds and the escaping step really introduces a marker for this input.
\<close>

theorem minifyJsCode_no_markers_witness:
  "set ((str ''y = /a'') @ [0x22] @ (str ''b/ ;'')) \<inter> markers = {} \<and>
   0x0E \<in> set (escapeRegexQuotes ((str ''y = /a'') @ [0x22] @ (str ''b/ ;''))) \<and>
   set (minifyJsCode ((str ''y = /a'') @ [0x22] @ (str ''b/ ;'')) False) \<inter> markers = {}"
proof -
  have h: "set ((str ''y = /a'') @ [0x22] @ (str ''b/ ;'')) \<inter> markers = {}"
    by (simp add: markers_def)
  have e: "0x0E \<in> set (escapeRegexQuotes ((str ''y = /a'') @ [0x22] @ (str ''b/ ;'')))"
    by code_simp
  show ?thesis using h e minifyJsCode_no_markers [OF h, of False] by simp
qed
section \<open>C10: the state of the log\<close>

text \<open>
  Claim C10. After a call of minifyJsFile or minifyJsInHtml that returns normally, the log
  is empty when logEnabled is false, and holds exactly one more record when it is true.
  Every call returns normally, because the catch block swallows the error, and a call whose
  try block has failed returns \<open>undefined\<close> before the lines that push the record and
  clear the log: with the log enabled nothing is appended, and with the log disabled a log
  that holds a record keeps it.
\<close>

theorem failed_call_leaves_log:
  "callMinifyJsInHtml (\<lambda>t m. Inr (str ''blob:1'')) JUndefined
       \<lparr>minificationLogs = [], logEnabled = True\<rparr> [] =
     (Return JUndefined, \<lparr>minificationLogs = [], logEnabled = True\<rparr>, [TypeError]) \<and>
   callMinifyJsInHtml (\<lambda>t m. Inr (str ''blob:1'')) JUndefined
       \<lparr>minificationLogs =
           [\<lparr>originalText = JString (str ''a = b''), originalSize = 5, originalDataURL = str ''blob:1'',
             minifiedText = JString (str ''a= b''), minifiedSize = 4, minifiedDataURL = str ''blob:1''\<rparr>],
        logEnabled = False\<rparr> [] =
     (Return JUndefined,
      \<lparr>minificationLogs =
           [\<lparr>originalText = JString (str ''a = b''), originalSize = 5, originalDataURL = str ''blob:1'',
             minifiedText = JString (str ''a= b''), minifiedSize = 4, minifiedDataURL = str ''blob:1''\<rparr>],
        logEnabled = False\<rparr>, [TypeError])"
  by (simp add: callMinifyJsInHtml_def tryMinifyJsInHtml_def)

text \<open>
  The same happens when the text holds a surrogate without its partner: \<open>encodeURI\<close>
  throws inside the try block.
\<close>

lemma lone_surrogate_leaves_log:
  "callMinifyJsFile (\<lambda>t m. Inr (str ''blob:1'')) (JString [0x61, 0xD800])
       \<lparr>minificationLogs = [], logEnabled = True\<rparr> [] =
     (Return JUndefined, \<lparr>minificationLogs = [], logEnabled = True\<rparr>, [URIError])"
  by (simp add: callMinifyJsFile_def tryMinifyJsFile_def callMinifyJsCode_def tryMinifyJsCode_def
      logAndReturn_def returned_def toStringJS_def isLowSurrogate_def isHighSurrogate_def)

text \<open>
  Claim C10 as amended. A call of minifyJsFile or minifyJsInHtml whose try block runs to
  its return statement returns that value, leaves logEnabled as it was, and leaves the log
  empty when logEnabled is false and with exactly one record appended to the log before
  the call when it is true. A call whose try block fails returns \<open>undefined\<close> and leaves
  the instance, and so the log, as it was. For minifyJsInHtml the try block has run to its
  return statement exactly when the call returns a text.
\<close>

lemma logAndReturn_state:
  "logAndReturn h mime text minified this = Inr (v, this') \<Longrightarrow>
   v = minified \<and> logEnabled this' = logEnabled this \<and>
   (\<exists>r. minificationLogs this' = (if logEnabled this then minificationLogs this @ [r] else []))"
  by (auto simp: logAndReturn_def Let_def clearLog_def split: sum.splits if_splits)

theorem log_state_after_call:
  "(tryMinifyJsFile h inp self con = (Inr (v, self'), con') \<longrightarrow>
      callMinifyJsFile h inp self con = (Return v, self', con') \<and>
      logEnabled self' = logEnabled self \<and>
      (\<not> logEnabled self \<longrightarrow> minificationLogs self' = []) \<and>
      (logEnabled self \<longrightarrow> (\<exists>r. minificationLogs self' = minificationLogs self @ [r]))) \<and>
   (tryMinifyJsFile h inp self con = (Inl err, con') \<longrightarrow>
      callMinifyJsFile h inp self con = (Return JUndefined, self, con' @ [err])) \<and>
   (tryMinifyJsInHtml h inp self con = (Inr (v, self'), con') \<longrightarrow>
      callMinifyJsInHtml h inp self con = (Return v, self', con') \<and>
      logEnabled self' = logEnabled self \<and>
      (\<not> logEnabled self \<longrightarrow> minificationLogs self' = []) \<and>
      (logEnabled self \<longrightarrow> (\<exists>r. minificationLogs self' = minificationLogs self @ [r]))) \<and>
   (tryMinifyJsInHtml h inp self con = (Inl err, con') \<longrightarrow>
      callMinifyJsInHtml h inp self con = (Return JUndefined, self, con' @ [err])) \<and>
   ((\<exists>t. fst (callMinifyJsInHtml h inp self con) = Return (JString t)) \<longleftrightarrow>
    (\<exists>r. fst (tryMinifyJsInHtml h inp self con) = Inr r))"
proof (intro conjI impI)
  assume a: "tryMinifyJsFile h inp self con = (Inr (v, self'), con')"
  then show "callMinifyJsFile h inp self con = (Return v, self', con')"
    by (simp add: callMinifyJsFile_def)
  from a have "\<exists>m. logAndReturn h (str ''text/javascript'') inp m self = Inr (v, self')"
    by (auto simp: tryMinifyJsFile_def split: prod.splits)
  then obtain m where "logAndReturn h (str ''text/javascript'') inp m self = Inr (v, self')" ..
  from logAndReturn_state [OF this]
  show "logEnabled self' = logEnabled self"
    and "\<not> logEnabled self \<Longrightarrow> minificationLogs self' = []"
    and "logEnabled self \<Longrightarrow> \<exists>r. minificationLogs self' = minificationLogs self @ [r]"
    by auto
next
  assume "tryMinifyJsFile h inp self con = (Inl err, con')"
  then show "callMinifyJsFile h inp self con = (Return JUndefined, self, con' @ [err])"
    by (simp add: callMinifyJsFile_def)
next
  assume a: "tryMinifyJsInHtml h inp self con = (Inr (v, self'), con')"
  then show "callMinifyJsInHtml h inp self con = (Return v, self', con')"
    by (simp add: callMinifyJsInHtml_def)
  from a have "\<exists>m. logAndReturn h (str ''text/html'') inp m self = Inr (v, self')"
    by (auto simp: tryMinifyJsInHtml_def split: jsval.splits)
  then obtain m where "logAndReturn h (str ''text/html'') inp m self = Inr (v, self')" ..
  from logAndReturn_state [OF this]
  show "logEnabled self' = logEnabled self"
    and "\<not> logEnabled self \<Longrightarrow> minificationLogs self' = []"
    and "logEnabled self \<Longrightarrow> \<exists>r. minificationLogs self' = minificationLogs self @ [r]"
    by auto
next
  assume "tryMinifyJsInHtml h inp self con = (Inl err, con')"
  then show "callMinifyJsInHtml h inp self con = (Return JUndefined, self, con' @ [err])"
    by (simp add: callMinifyJsInHtml_def)
next
  show "(\<exists>t. fst (callMinifyJsInHtml h inp self con) = Return (JString t)) \<longleftrightarrow>
    (\<exists>r. fst (tryMinifyJsInHtml h inp self con) = Inr r)"
  proof (cases "fst (tryMinifyJsInHtml h inp self con)")
    case (Inl e)
    then show ?thesis
      by (cases "tryMinifyJsInHtml h inp self con") (simp add: callMinifyJsInHtml_def)
  next
    case (Inr r)
    then obtain w this' c where t: "tryMinifyJsInHtml h inp self con = (Inr (w, this'), c)"
      by (cases "tryMinifyJsInHtml h inp self con"; cases r) auto
    then obtain s where "inp = JString s"
      by (auto simp: tryMinifyJsInHtml_def split: jsval.splits)
    with t have "logAndReturn h (str ''text/html'') inp (JString (embedMinified s)) self =
        Inr (w, this')"
      by (simp add: tryMinifyJsInHtml_def)
    from logAndReturn_state [OF this] have "w = JString (embedMinified s)" by simp
    with t have "fst (callMinifyJsInHtml h inp self con) = Return (JString (embedMinified s))"
      by (simp add: callMinifyJsInHtml_def)
    with Inr show ?thesis by blast
  qed
qed

text \<open>
  The hypotheses hold at concrete calls: minifyJsFile with the log enabled appends one
  record, minifyJsInHtml with the log disabled empties a log that held one.
\<close>

theorem log_state_after_call_witness:
  "tryMinifyJsFile (\<lambda>t m. Inr (str ''blob:1'')) (JString (str ''a = b''))
       \<lparr>minificationLogs = [], logEnabled = True\<rparr> [] =
     (Inr (JString (str ''a= b''),
        \<lparr>minificationLogs =
           [\<lparr>originalText = JString (str ''a = b''), originalSize = 5, originalDataURL = (str ''blob:1''),
             minifiedText = JString (str ''a= b''), minifiedSize = 4, minifiedDataURL = (str ''blob:1'')\<rparr>],
         logEnabled = True\<rparr>), []) \<and>
   callMinifyJsFile (\<lambda>t m. Inr (str ''blob:1'')) (JString (str ''a = b''))
       \<lparr>minificationLogs = [], logEnabled = True\<rparr> [] =
     (Return (JString (str ''a= b'')),
        \<lparr>minificationLogs =
           [\<lparr>originalText = JString (str ''a = b''), originalSize = 5, originalDataURL = (str ''blob:1''),
             minifiedText = JString (str ''a= b''), minifiedSize = 4, minifiedDataURL = (str ''blob:1'')\<rparr>],
         logEnabled = True\<rparr>, []) \<and>
   tryMinifyJsInHtml (\<lambda>t m. Inr (str ''blob:1'')) (JString (str ''<script> a</script>''))
       \<lparr>minificationLogs =
           [\<lparr>originalText = JString (str ''a = b''), originalSize = 5, originalDataURL = (str ''blob:1''),
             minifiedText = JString (str ''a= b''), minifiedSize = 4, minifiedDataURL = (str ''blob:1'')\<rparr>],
        logEnabled = False\<rparr> [] =
     (Inr (JString (str ''<script>a</script>''), \<lparr>minificationLogs = [], logEnabled = False\<rparr>), []) \<and>
   callMinifyJsInHtml (\<lambda>t m. Inr (str ''blob:1'')) (JString (str ''<script> a</script>''))
       \<lparr>minificationLogs =
           [\<lparr>originalText = JString (str ''a = b''), originalSize = 5, originalDataURL = (str ''blob:1''),
             minifiedText = JString (str ''a= b''), minifiedSize = 4, minifiedDataURL = (str ''blob:1'')\<rparr>],
        logEnabled = False\<rparr> [] =
     (Return (JString (str ''<script>a</script>'')), \<lparr>minificationLogs = [], logEnabled = False\<rparr>, [])"
proof -
  have m1: "minifyJsCode (str ''a = b'') False = (str ''a= b'')" by code_simp
  have m2: "embedMinified (str ''<script> a</script>'') = (str ''<script>a</script>'')" by code_simp
  have a: "tryMinifyJsFile (\<lambda>t m. Inr (str ''blob:1'')) (JString (str ''a = b''))
       \<lparr>minificationLogs = [], logEnabled = True\<rparr> [] =
     (Inr (JString (str ''a= b''),
        \<lparr>minificationLogs =
           [\<lparr>originalText = JString (str ''a = b''), originalSize = 5, originalDataURL = (str ''blob:1''),
             minifiedText = JString (str ''a= b''), minifiedSize = 4, minifiedDataURL = (str ''blob:1'')\<rparr>],
         logEnabled = True\<rparr>), [])"
    by (simp add: tryMinifyJsFile_def callMinifyJsCode_def tryMinifyJsCode_def logAndReturn_def
        returned_def toStringJS_def isLowSurrogate_def isHighSurrogate_def m1 [simplified])
  have b: "tryMinifyJsInHtml (\<lambda>t m. Inr (str ''blob:1'')) (JString (str ''<script> a</script>''))
       \<lparr>minificationLogs =
           [\<lparr>originalText = JString (str ''a = b''), originalSize = 5, originalDataURL = (str ''blob:1''),
             minifiedText = JString (str ''a= b''), minifiedSize = 4, minifiedDataURL = (str ''blob:1'')\<rparr>],
        logEnabled = False\<rparr> [] =
     (Inr (JString (str ''<script>a</script>''), \<lparr>minificationLogs = [], logEnabled = False\<rparr>), [])"
    by (simp add: tryMinifyJsInHtml_def logAndReturn_def clearLog_def toStringJS_def
        isLowSurrogate_def isHighSurrogate_def m2 [simplified])
  show ?thesis
    using a b
      log_state_after_call [where h = "\<lambda>t m. Inr (str ''blob:1'')" and inp = "JString (str ''a = b'')"
        and self = "\<lparr>minificationLogs = [], logEnabled = True\<rparr>" and con = "[]" and con' = "[]"
        and v = "JString (str ''a= b'')"
        and self' = "\<lparr>minificationLogs =
           [\<lparr>originalText = JString (str ''a = b''), originalSize = 5, originalDataURL = (str ''blob:1''),
             minifiedText = JString (str ''a= b''), minifiedSize = 4, minifiedDataURL = (str ''blob:1'')\<rparr>],
         logEnabled = True\<rparr>"]
      log_state_after_call [where h = "\<lambda>t m. Inr (str ''blob:1'')" and inp = "JString (str ''<script> a</script>'')"
        and self = "\<lparr>minificationLogs =
           [\<lparr>originalText = JString (str ''a = b''), originalSize = 5, originalDataURL = (str ''blob:1''),
             minifiedText = JString (str ''a= b''), minifiedSize = 4, minifiedDataURL = (str ''blob:1'')\<rparr>],
        logEnabled = False\<rparr>" and con = "[]" and con' = "[]"
        and v = "JString (str ''<script>a</script>'')"
        and self' = "\<lparr>minificationLogs = [], logEnabled = False\<rparr>"]
    by simp
qed


end
